theory Spec2Isabelle
  imports Main "HOL-Library.AList"
begin

section \<open>Shared schema (shared/schema.ts)\<close>

text \<open>
  The record types of the schema. Optional text columns are \<open>string option\<close>
  (absent, \<open>null\<close> and \<open>undefined\<close> are all \<open>None\<close>); ids are JavaScript numbers that
  only ever hold integers here and are modelled as unbounded \<open>int\<close>. The relationship
  type is a free text column, so it is a \<open>string\<close>, not an enumeration.
  \<open>Person\<close> is \<open>InsertPerson\<close> extended by the id, \<open>Relationship\<close> is
  \<open>InsertRelationship\<close> extended by the id.
\<close>

record InsertPerson =
  name :: string
  gender :: "string option"
  birthDate :: "string option"
  birthPlace :: "string option"
  deathDate :: "string option"
  "notes" :: "string option"

record Person = InsertPerson +
  p_id :: int

record InsertRelationship =
  r_type :: string
  personId :: int
  relatedPersonId :: int

record Relationship = InsertRelationship +
  r_id :: int

text \<open>The object spreads \<open>{ ...insertPerson, id }\<close> and \<open>{ ...insertRelationship, id }\<close>.\<close>

definition person_with_id :: "InsertPerson \<Rightarrow> int \<Rightarrow> Person" where
  "person_with_id ins i = InsertPerson.extend ins (Person.fields i)"

definition relationship_with_id :: "InsertRelationship \<Rightarrow> int \<Rightarrow> Relationship" where
  "relationship_with_id ins i = InsertRelationship.extend ins (Relationship.fields i)"

section \<open>The record store (class MemStorage)\<close>

text \<open>
  A JavaScript \<open>Map\<close> iterates in insertion order; \<open>set\<close> on a present key replaces the
  value in place, \<open>set\<close> on a new key appends, \<open>delete\<close> removes the entry and tells
  whether there was one. An association list with \<open>AList.update\<close>, \<open>AList.delete\<close> and
  \<open>map_of\<close> does exactly that.
\<close>

record MemStorage =
  persons :: "(int \<times> Person) list"
  relationships :: "(int \<times> Relationship) list"
  currentPersonId :: int
  currentRelationshipId :: int

definition MemStorage_new :: MemStorage where
  "MemStorage_new = \<lparr>persons = [], relationships = [], currentPersonId = 1, currentRelationshipId = 1\<rparr>"

definition map_has :: "(int \<times> 'v) list \<Rightarrow> int \<Rightarrow> bool" where
  "map_has m k = (map_of m k \<noteq> None)"

definition map_values :: "(int \<times> 'v) list \<Rightarrow> 'v list" where
  "map_values m = map snd m"

definition getPerson :: "int \<Rightarrow> MemStorage \<Rightarrow> Person option" where
  "getPerson i s = map_of (persons s) i"

definition getRelationship :: "int \<Rightarrow> MemStorage \<Rightarrow> Relationship option" where
  "getRelationship i s = map_of (relationships s) i"

definition createPerson :: "InsertPerson \<Rightarrow> MemStorage \<Rightarrow> Person \<times> MemStorage" where
  "createPerson insertPerson s =
     (let i = currentPersonId s;
          person = person_with_id insertPerson i
      in (person, s\<lparr>persons := AList.update i person (persons s), currentPersonId := i + 1\<rparr>))"

definition updatePerson :: "int \<Rightarrow> InsertPerson \<Rightarrow> MemStorage \<Rightarrow> Person option \<times> MemStorage" where
  "updatePerson i updPerson s =
     (case map_of (persons s) i of
        None \<Rightarrow> (None, s)
      | Some existingPerson \<Rightarrow>
          (let updatedPerson = person_with_id updPerson i
           in (Some updatedPerson, s\<lparr>persons := AList.update i updatedPerson (persons s)\<rparr>)))"

definition getReciprocalType :: "string \<Rightarrow> string" where
  "getReciprocalType t =
     (if t = ''parent'' then ''child''
      else if t = ''child'' then ''parent''
      else if t = ''spouse'' then ''spouse''
      else if t = ''sibling'' then ''sibling''
      else t)"

text \<open>
  \<open>createRelationship\<close> is four independent \<open>if\<close> statements; each one that fires takes
  the next id from the counter and stores one reciprocal record.
\<close>

definition add_reciprocal :: "string \<Rightarrow> string \<Rightarrow> InsertRelationship \<Rightarrow> MemStorage \<Rightarrow> MemStorage" where
  "add_reciprocal t t' ins s =
     (if r_type ins = t then
        (let reciprocal = \<lparr>r_type = t', personId = relatedPersonId ins,
                            relatedPersonId = personId ins, r_id = currentRelationshipId s\<rparr>
         in s\<lparr>relationships := AList.update (r_id reciprocal) reciprocal (relationships s),
              currentRelationshipId := currentRelationshipId s + 1\<rparr>)
      else s)"

definition createRelationship :: "InsertRelationship \<Rightarrow> MemStorage \<Rightarrow> Relationship \<times> MemStorage" where
  "createRelationship ins s =
     (let i = currentRelationshipId s;
          relationship = relationship_with_id ins i;
          s1 = s\<lparr>relationships := AList.update i relationship (relationships s),
                 currentRelationshipId := i + 1\<rparr>;
          s2 = add_reciprocal ''spouse'' ''spouse'' ins s1;
          s3 = add_reciprocal ''parent'' ''child'' ins s2;
          s4 = add_reciprocal ''child'' ''parent'' ins s3;
          s5 = add_reciprocal ''sibling'' ''sibling'' ins s4
      in (relationship, s5))"

definition is_reciprocal_of :: "Relationship \<Rightarrow> Relationship \<Rightarrow> bool" where
  "is_reciprocal_of relationship rel \<longleftrightarrow>
     personId rel = relatedPersonId relationship \<and>
     relatedPersonId rel = personId relationship \<and>
     r_type rel = getReciprocalType (r_type relationship)"

definition deleteRelationship :: "int \<Rightarrow> MemStorage \<Rightarrow> bool \<times> MemStorage" where
  "deleteRelationship i s =
     (case map_of (relationships s) i of
        None \<Rightarrow> (False, s)
      | Some relationship \<Rightarrow>
          (let reciprocalRelationships =
                 filter (is_reciprocal_of relationship) (map_values (relationships s));
               m1 = fold (\<lambda>rel m. AList.delete (r_id rel) m) reciprocalRelationships (relationships s)
           in (map_has m1 i, s\<lparr>relationships := AList.delete i m1\<rparr>)))"

definition concerns :: "int \<Rightarrow> Relationship \<Rightarrow> bool" where
  "concerns i r \<longleftrightarrow> personId r = i \<or> relatedPersonId r = i"

definition deletePerson :: "int \<Rightarrow> MemStorage \<Rightarrow> bool \<times> MemStorage" where
  "deletePerson i s =
     (let allRelationships = map_values (relationships s);
          personRelationships = filter (concerns i) allRelationships;
          s1 = fold (\<lambda>rel st. snd (deleteRelationship (r_id rel) st)) personRelationships s
      in (map_has (persons s1) i, s1\<lparr>persons := AList.delete i (persons s1)\<rparr>))"

subsection \<open>Sequences of store operations\<close>

datatype store_op =
    CreatePerson InsertPerson
  | UpdatePerson int InsertPerson
  | DeletePerson int
  | CreateRelationship InsertRelationship
  | DeleteRelationship int

fun step :: "store_op \<Rightarrow> MemStorage \<Rightarrow> MemStorage" where
  "step (CreatePerson ins) s = snd (createPerson ins s)"
| "step (UpdatePerson i ins) s = snd (updatePerson i ins s)"
| "step (DeletePerson i) s = snd (deletePerson i s)"
| "step (CreateRelationship ins) s = snd (createRelationship ins s)"
| "step (DeleteRelationship i) s = snd (deleteRelationship i s)"

fun run :: "store_op list \<Rightarrow> MemStorage \<Rightarrow> MemStorage" where
  "run [] s = s"
| "run (x # xs) s = run xs (step x s)"

subsection \<open>Properties of store states\<close>

text \<open>
  What every reachable store satisfies: the keys of each map are distinct, each record is
  stored under its own id, and every id is at least 1 and below the counter.
\<close>

definition wf_store :: "MemStorage \<Rightarrow> bool" where
  "wf_store s \<longleftrightarrow>
     distinct (map fst (persons s)) \<and>
     list_all (\<lambda>(k, p). p_id p = k \<and> 1 \<le> k \<and> k < currentPersonId s) (persons s) \<and>
     distinct (map fst (relationships s)) \<and>
     list_all (\<lambda>(k, r). r_id r = k \<and> 1 \<le> k \<and> k < currentRelationshipId s) (relationships s) \<and>
     1 \<le> currentPersonId s \<and> 1 \<le> currentRelationshipId s"

text \<open>The four relationship types for which \<open>createRelationship\<close> records a reciprocal.\<close>

definition is_four :: "string \<Rightarrow> bool" where
  "is_four t \<longleftrightarrow> t = ''spouse'' \<or> t = ''parent'' \<or> t = ''child'' \<or> t = ''sibling''"

text \<open>
  The mirror invariant: every stored relationship has a stored reciprocal. \<open>mirrored\<close>
  asks it of every record, \<open>mirrored_known\<close> of the records of the four known types.
\<close>

definition has_mirror :: "(int \<times> Relationship) list \<Rightarrow> Relationship \<Rightarrow> bool" where
  "has_mirror m r = list_ex (is_reciprocal_of r) (map_values m)"

definition mirrored :: "MemStorage \<Rightarrow> bool" where
  "mirrored s = list_all (has_mirror (relationships s)) (map_values (relationships s))"

definition mirrored_known :: "MemStorage \<Rightarrow> bool" where
  "mirrored_known s =
     list_all (\<lambda>r. is_four (r_type r) \<longrightarrow> has_mirror (relationships s) r) (map_values (relationships s))"

text \<open>
  A \<open>deleteRelationship\<close> call keeps the invariant when the relationship it names is absent,
  is its own reciprocal, or has no stored duplicate (another record of the same type
  between the same persons in the same direction).
\<close>

definition same_edge :: "Relationship \<Rightarrow> Relationship \<Rightarrow> bool" where
  "same_edge a b \<longleftrightarrow>
     r_type a = r_type b \<and> personId a = personId b \<and> relatedPersonId a = relatedPersonId b"

definition delete_without_duplicate :: "int \<Rightarrow> MemStorage \<Rightarrow> bool" where
  "delete_without_duplicate i s =
     (case map_of (relationships s) i of
        None \<Rightarrow> True
      | Some r0 \<Rightarrow> is_reciprocal_of r0 r0 \<or>
                   \<not> list_ex (\<lambda>(k, r). k \<noteq> i \<and> same_edge r0 r) (relationships s))"

fun op_allowed :: "store_op \<Rightarrow> MemStorage \<Rightarrow> bool" where
  "op_allowed (DeleteRelationship i) s = delete_without_duplicate i s"
| "op_allowed _ s = True"

fun run_allowed :: "store_op list \<Rightarrow> MemStorage \<Rightarrow> bool" where
  "run_allowed [] s = True"
| "run_allowed (x # xs) s = (op_allowed x s \<and> run_allowed xs (step x s))"

text \<open>The keys that \<open>createRelationship\<close> adds to the relationships map.\<close>

definition new_relationship_ids :: "InsertRelationship \<Rightarrow> MemStorage \<Rightarrow> int list" where
  "new_relationship_ids ins s =
     filter (\<lambda>k. \<not> map_has (relationships s) k)
       (map fst (relationships (snd (createRelationship ins s))))"

section \<open>The tree builder (client/src/lib/treeUtils.ts)\<close>

record FamilyTreeData =
  data_persons :: "Person list"
  data_relationships :: "Relationship list"

text \<open>
  A \<open>FamilyTreePerson\<close> is a \<open>Person\<close> extended by four arrays of \<open>FamilyTreePerson\<close>
  objects. The objects are shared and refer to each other in cycles (a child is in its
  parent's \<open>children\<close> and the parent in the child's \<open>parents\<close>), so they live in an
  explicit store: \<open>personsMap\<close>, which maps a person id to the one object made for it.
  A reference to an object is its key in that map; the arrays hold references.
\<close>

record FamilyTreePerson = Person +
  children :: "int list"
  parents :: "int list"
  spouses :: "int list"
  siblings :: "int list"

type_synonym personsMap = "int \<rightharpoonup> FamilyTreePerson"

text \<open>The object \<open>{ ...person, children: [], parents: [], spouses: [], siblings: [] }\<close>.\<close>

definition new_tree_person :: "Person \<Rightarrow> FamilyTreePerson" where
  "new_tree_person p = Person.extend p (FamilyTreePerson.fields [] [] [] [])"

definition add_person :: "Person \<Rightarrow> personsMap \<Rightarrow> personsMap" where
  "add_person p m = m(p_id p \<mapsto> new_tree_person p)"

definition make_personsMap :: "Person list \<Rightarrow> personsMap" where
  "make_personsMap ps = fold add_person ps Map.empty"

text \<open>
  The body of \<open>relationships.forEach\<close>: both ends must be in the map; the switch on the
  type pushes the related object onto one array of the person's object and does nothing
  for any other type.
\<close>

definition connect :: "Relationship \<Rightarrow> personsMap \<Rightarrow> personsMap" where
  "connect relationship m =
     (case m (personId relationship) of
        None \<Rightarrow> m
      | Some p \<Rightarrow>
          (case m (relatedPersonId relationship) of
             None \<Rightarrow> m
           | Some relatedPerson \<Rightarrow>
               (if r_type relationship = ''parent'' then
                  m(personId relationship \<mapsto> p\<lparr>children := children p @ [relatedPersonId relationship]\<rparr>)
                else if r_type relationship = ''child'' then
                  m(personId relationship \<mapsto> p\<lparr>parents := parents p @ [relatedPersonId relationship]\<rparr>)
                else if r_type relationship = ''spouse'' then
                  m(personId relationship \<mapsto> p\<lparr>spouses := spouses p @ [relatedPersonId relationship]\<rparr>)
                else if r_type relationship = ''sibling'' then
                  m(personId relationship \<mapsto> p\<lparr>siblings := siblings p @ [relatedPersonId relationship]\<rparr>)
                else m)))"

text \<open>The id read from the object behind a reference, as the sort comparator does.\<close>

definition id_of :: "personsMap \<Rightarrow> int \<Rightarrow> int" where
  "id_of m k = (case m k of Some n \<Rightarrow> p_id n | None \<Rightarrow> k)"

text \<open>
  \<open>buildFamilyTree\<close> returns the root objects; the model returns the store they live in
  together with the list of root references. \<open>Array.prototype.sort\<close> is stable, as is
  \<open>sort_key\<close>.
\<close>

definition buildFamilyTree :: "FamilyTreeData \<Rightarrow> personsMap \<times> int list" where
  "buildFamilyTree d =
     (if data_persons d = [] then (Map.empty, [])
      else
        (let m0 = make_personsMap (data_persons d);
             m = fold connect (data_relationships d) m0;
             personsWithParents =
               map personId (filter (\<lambda>r. r_type r = ''child'') (data_relationships d));
             rootCandidates = filter (\<lambda>p. p_id p \<notin> set personsWithParents) (data_persons d)
         in (m, sort_key (id_of m) (map p_id rootCandidates))))"

subsection \<open>What the claims say about the forest\<close>

definition has_parent :: "Relationship list \<Rightarrow> int \<Rightarrow> bool" where
  "has_parent rels i = list_ex (\<lambda>r. r_type r = ''child'' \<and> personId r = i) rels"

text \<open>
  The persons carried by the returned roots, in order, and the input persons without a
  recorded parent, sorted by id: the two lists the claim about the roots compares.
\<close>

definition root_persons :: "FamilyTreeData \<Rightarrow> Person option list" where
  "root_persons d =
     map (\<lambda>k. map_option Person.truncate (fst (buildFamilyTree d) k)) (snd (buildFamilyTree d))"

definition parentless_persons :: "FamilyTreeData \<Rightarrow> Person list" where
  "parentless_persons d =
     sort_key p_id (filter (\<lambda>p. \<not> has_parent (data_relationships d) (p_id p)) (data_persons d))"

text \<open>
  The related ids a claim expects in one array of the object for person \<open>a\<close>: the
  \<open>relatedPersonId\<close> of every relationship of type \<open>t\<close> from \<open>a\<close> whose other end is among
  the given person ids, in list order and with multiplicity.
\<close>

definition related :: "string \<Rightarrow> int set \<Rightarrow> Relationship list \<Rightarrow> int \<Rightarrow> int list" where
  "related t ids rels a =
     map relatedPersonId (filter (\<lambda>r. r_type r = t \<and> personId r = a \<and> relatedPersonId r \<in> ids) rels)"

text \<open>
  A small family used to run the builder: Ann (1) and Carl (3) are spouses, Bob (2) is
  Ann's child, and one relationship points at a person (9) that is not in the list.
\<close>

definition example_person :: "int \<Rightarrow> string \<Rightarrow> Person" where
  "example_person i n = \<lparr>name = n, gender = None, birthDate = None, birthPlace = None,
     deathDate = None, notes = None, p_id = i\<rparr>"

definition example_rel :: "int \<Rightarrow> string \<Rightarrow> int \<Rightarrow> int \<Rightarrow> Relationship" where
  "example_rel i t a b = \<lparr>r_type = t, personId = a, relatedPersonId = b, r_id = i\<rparr>"

definition example_family :: FamilyTreeData where
  "example_family =
     \<lparr>data_persons = [example_person 3 ''Carl'', example_person 1 ''Ann'', example_person 2 ''Bob''],
      data_relationships =
        [example_rel 1 ''parent'' 1 2, example_rel 2 ''child'' 2 1,
         example_rel 3 ''spouse'' 1 3, example_rel 4 ''spouse'' 3 1,
         example_rel 5 ''parent'' 1 9, example_rel 6 ''parent'' 1 2]\<rparr>"

text \<open>
  A persons list in which an id is repeated, as client state holds after it was loaded
  from local storage and a person was added under an id the restarted store reissued.
\<close>

definition repeated_id_family :: FamilyTreeData where
  "repeated_id_family =
     \<lparr>data_persons = [example_person 2 ''Bea'', example_person 1 ''Old'', example_person 1 ''New''],
      data_relationships = []\<rparr>"

section \<open>The layout engine (layoutFamilyTree)\<close>

text \<open>
  The layout reads a forest of \<open>FamilyTreePerson\<close> objects, which may share objects and
  contain cycles, so its input is a store of objects and a list of root references. Only
  \<open>id\<close>, \<open>spouses\<close> and \<open>children\<close> of an object are read; a missing array behaves like
  the empty one. Every division in the source halves an even integer, so all coordinates
  are integers and \<open>div 2\<close> is exact.
\<close>

type_synonym forest = "int \<Rightarrow> FamilyTreePerson"

text \<open>
  A \<open>TreeNode\<close> is created once, pushed on \<open>nodes\<close> at once and later changed only in its
  links, so a node is referred to by its index in \<open>nodes\<close>. The spouse node literal has
  no \<open>children\<close> field.
\<close>

record TreeNode =
  n_x :: int
  n_y :: int
  n_person :: int
  n_width :: int
  n_height :: int
  n_children :: "nat list option"
  n_spouse :: "nat option"
  n_level :: int

record Dimensions =
  dim_width :: int
  dim_height :: int

datatype connector_type = Horizontal | Vertical

record Connector =
  c_type :: connector_type
  c_x1 :: int
  c_y1 :: int
  c_x2 :: int
  c_y2 :: int

record TreeLayout =
  nodes :: "TreeNode list"
  connectors :: "Connector list"
  dimensions :: Dimensions

definition NODE_WIDTH :: int where "NODE_WIDTH = 256"
definition NODE_HEIGHT :: int where "NODE_HEIGHT = 120"
definition LEVEL_HEIGHT :: int where "LEVEL_HEIGHT = 160"
definition SIBLING_SPACING :: int where "SIBLING_SPACING = 40"
definition SPOUSE_SPACING :: int where "SPOUSE_SPACING = 32"

text \<open>The variables of \<open>layoutFamilyTree\<close> that \<open>processNode\<close> changes.\<close>

record layout_state =
  cur_nodes :: "TreeNode list"
  cur_connectors :: "Connector list"
  maxWidth :: int
  maxHeight :: int

definition push_node :: "TreeNode \<Rightarrow> layout_state \<Rightarrow> layout_state" where
  "push_node n s = s\<lparr>cur_nodes := cur_nodes s @ [n]\<rparr>"

definition push_connector :: "Connector \<Rightarrow> layout_state \<Rightarrow> layout_state" where
  "push_connector c s = s\<lparr>cur_connectors := cur_connectors s @ [c]\<rparr>"

definition update_node :: "nat \<Rightarrow> (TreeNode \<Rightarrow> TreeNode) \<Rightarrow> layout_state \<Rightarrow> layout_state" where
  "update_node i f s = s\<lparr>cur_nodes := (cur_nodes s)[i := f (cur_nodes s ! i)]\<rparr>"

text \<open>\<open>xs.forEach((x, index) => ...)\<close> over a body that may fail to return.\<close>

fun forEach_indexed :: "(nat \<Rightarrow> 'a \<Rightarrow> 's \<Rightarrow> 's option) \<Rightarrow> nat \<Rightarrow> 'a list \<Rightarrow> 's \<Rightarrow> 's option" where
  "forEach_indexed f i [] s = Some s"
| "forEach_indexed f i (a # as) s =
     (case f i a s of None \<Rightarrow> None | Some s' \<Rightarrow> forEach_indexed f (Suc i) as s')"

text \<open>The spouse block: only the first spouse gets a node, linked from the person's node.\<close>

definition process_spouse :: "forest \<Rightarrow> int \<Rightarrow> int \<Rightarrow> int \<Rightarrow> nat \<Rightarrow> layout_state \<Rightarrow> layout_state" where
  "process_spouse h person level xOffset node_i s =
     (case spouses (h person) of
        [] \<Rightarrow> s
      | spouse # _ \<Rightarrow>
          (let node = cur_nodes s ! node_i;
               spouseNode = \<lparr>n_x = xOffset + NODE_WIDTH + SPOUSE_SPACING, n_y = level * LEVEL_HEIGHT,
                             n_person = spouse, n_width = NODE_WIDTH, n_height = NODE_HEIGHT,
                             n_children = None, n_spouse = None, n_level = level\<rparr>;
               spouse_i = length (cur_nodes s);
               s1 = push_node spouseNode s;
               s2 = update_node node_i (\<lambda>n. n\<lparr>n_spouse := Some spouse_i\<rparr>) s1
           in push_connector
                \<lparr>c_type = Horizontal, c_x1 = n_x node + n_width node,
                 c_y1 = n_y node + n_height node div 2, c_x2 = n_x spouseNode,
                 c_y2 = n_y spouseNode + n_height spouseNode div 2\<rparr> s2))"

text \<open>The connectors drawn before the children are visited, and the x of the first child.\<close>

definition centerX_of :: "nat \<Rightarrow> layout_state \<Rightarrow> int" where
  "centerX_of node_i s =
     (let node = cur_nodes s ! node_i
      in case n_spouse node of
           Some sp \<Rightarrow> n_x node + (n_x (cur_nodes s ! sp) + n_width (cur_nodes s ! sp) - n_x node) div 2
         | None \<Rightarrow> n_x node + n_width node div 2)"

definition childXOffset_of :: "nat \<Rightarrow> int \<Rightarrow> layout_state \<Rightarrow> int" where
  "childXOffset_of node_i len s =
     max 0 (centerX_of node_i s - (len * NODE_WIDTH + (len - 1) * SIBLING_SPACING) div 2)"

definition children_connectors :: "nat \<Rightarrow> int \<Rightarrow> layout_state \<Rightarrow> layout_state" where
  "children_connectors node_i len s =
     (let node = cur_nodes s ! node_i;
          childXOffset = childXOffset_of node_i len s;
          parentY = n_y node + n_height node;
          centerX = centerX_of node_i s;
          s1 = push_connector \<lparr>c_type = Vertical, c_x1 = centerX, c_y1 = parentY, c_x2 = centerX,
                               c_y2 = parentY + LEVEL_HEIGHT div 2\<rparr> s
      in if len > 1 then
           push_connector
             \<lparr>c_type = Horizontal, c_x1 = childXOffset + NODE_WIDTH div 2,
              c_y1 = parentY + LEVEL_HEIGHT div 2,
              c_x2 = childXOffset + len * NODE_WIDTH + (len - 1) * SIBLING_SPACING - NODE_WIDTH div 2,
              c_y2 = parentY + LEVEL_HEIGHT div 2\<rparr> s1
         else s1)"

text \<open>What the loop body does once the recursive call for a child has returned.\<close>

definition after_child :: "nat \<Rightarrow> int \<Rightarrow> int \<Rightarrow> nat \<Rightarrow> layout_state \<Rightarrow> layout_state" where
  "after_child node_i parentY childX childNode s =
     (let s1 = update_node node_i (\<lambda>n. n\<lparr>n_children := map_option (\<lambda>cs. cs @ [childNode]) (n_children n)\<rparr>) s;
          child_y = n_y (cur_nodes s ! childNode);
          s2 = push_connector
                 \<lparr>c_type = Vertical, c_x1 = childX + NODE_WIDTH div 2,
                  c_y1 = parentY + LEVEL_HEIGHT div 2, c_x2 = childX + NODE_WIDTH div 2,
                  c_y2 = child_y\<rparr> s1
      in s2\<lparr>maxWidth := max (maxWidth s2) (childX + NODE_WIDTH),
            maxHeight := max (maxHeight s2) (child_y + NODE_HEIGHT)\<rparr>)"

text \<open>
  \<open>processNode\<close> recurses into children that were not yet laid out when the parent was
  visited; nothing in its arguments gets smaller, so the model counts the nesting depth
  down from a given fuel and returns \<open>None\<close> when it runs out. It returns the index of
  the new node and the changed variables.
\<close>

fun processNode :: "nat \<Rightarrow> forest \<Rightarrow> int \<Rightarrow> int \<Rightarrow> int \<Rightarrow> layout_state \<Rightarrow> (nat \<times> layout_state) option" where
  "processNode 0 h person level xOffset s = None"
| "processNode (Suc fuel) h person level xOffset s =
     (let node_i = length (cur_nodes s);
          s1 = push_node \<lparr>n_x = xOffset, n_y = level * LEVEL_HEIGHT, n_person = person,
                          n_width = NODE_WIDTH, n_height = NODE_HEIGHT, n_children = Some [],
                          n_spouse = None, n_level = level\<rparr> s;
          s2 = process_spouse h person level xOffset node_i s1;
          totalWidth = (if spouses (h person) \<noteq> [] then NODE_WIDTH + (NODE_WIDTH + SPOUSE_SPACING)
                        else NODE_WIDTH);
          validChildren =
            filter (\<lambda>child. \<not> list_ex (\<lambda>n. p_id (h (n_person n)) = p_id (h child)) (cur_nodes s2))
              (children (h person));
          len = int (length validChildren);
          childXOffset = childXOffset_of node_i len s2;
          parentY = n_y (cur_nodes s2 ! node_i) + n_height (cur_nodes s2 ! node_i)
      in case (if validChildren \<noteq> [] then
                 forEach_indexed
                   (\<lambda>index child st.
                      let childX = childXOffset + int index * (NODE_WIDTH + SIBLING_SPACING)
                      in case processNode fuel h child (level + 1) childX st of
                           None \<Rightarrow> None
                         | Some (childNode, st1) \<Rightarrow> Some (after_child node_i parentY childX childNode st1))
                   0 validChildren (children_connectors node_i len s2)
               else Some s2) of
           None \<Rightarrow> None
         | Some s3 \<Rightarrow>
             Some (node_i,
                   s3\<lparr>maxWidth := max (maxWidth s3) (xOffset + totalWidth),
                      maxHeight := max (maxHeight s3) (level * LEVEL_HEIGHT + NODE_HEIGHT)\<rparr>))"

fun layout_roots :: "nat \<Rightarrow> forest \<Rightarrow> int list \<Rightarrow> int \<Rightarrow> layout_state \<Rightarrow> layout_state option" where
  "layout_roots fuel h [] xPos s = Some s"
| "layout_roots fuel h (rootPerson # rest) xPos s =
     (case processNode fuel h rootPerson 0 xPos s of
        None \<Rightarrow> None
      | Some (node, s') \<Rightarrow> layout_roots fuel h rest (maxWidth s' + SIBLING_SPACING) s')"

definition layoutFamilyTree :: "nat \<Rightarrow> forest \<Rightarrow> int list \<Rightarrow> TreeLayout option" where
  "layoutFamilyTree fuel h rootPersons =
     (case layout_roots fuel h rootPersons 0
             \<lparr>cur_nodes = [], cur_connectors = [], maxWidth = 0, maxHeight = 0\<rparr> of
        None \<Rightarrow> None
      | Some s \<Rightarrow>
          Some \<lparr>nodes = cur_nodes s, connectors = cur_connectors s,
                dimensions = \<lparr>dim_width = maxWidth s, dim_height = maxHeight s\<rparr>\<rparr>)"

subsection \<open>The parts of one \<open>processNode\<close> call\<close>

text \<open>
  Names for the parts of the body of \<open>processNode\<close>, which the proofs take one at a time:
  the state once the person's node and the spouse's node are pushed, the nodes pushed
  (without links), the width they take, the children to visit, and the body of the loop
  over them.
\<close>

definition placed :: "forest \<Rightarrow> int \<Rightarrow> int \<Rightarrow> int \<Rightarrow> layout_state \<Rightarrow> layout_state" where
  "placed h person level xOffset s =
     process_spouse h person level xOffset (length (cur_nodes s))
       (push_node \<lparr>n_x = xOffset, n_y = level * LEVEL_HEIGHT, n_person = person,
                   n_width = NODE_WIDTH, n_height = NODE_HEIGHT, n_children = Some [],
                   n_spouse = None, n_level = level\<rparr> s)"

definition front_nodes :: "forest \<Rightarrow> int \<Rightarrow> int \<Rightarrow> int \<Rightarrow> TreeNode list" where
  "front_nodes h person level xOffset =
     \<lparr>n_x = xOffset, n_y = level * LEVEL_HEIGHT, n_person = person, n_width = NODE_WIDTH,
      n_height = NODE_HEIGHT, n_children = None, n_spouse = None, n_level = level\<rparr>
     # (case spouses (h person) of
          [] \<Rightarrow> []
        | spouse # _ \<Rightarrow>
            [\<lparr>n_x = xOffset + NODE_WIDTH + SPOUSE_SPACING, n_y = level * LEVEL_HEIGHT,
              n_person = spouse, n_width = NODE_WIDTH, n_height = NODE_HEIGHT,
              n_children = None, n_spouse = None, n_level = level\<rparr>])"

definition total_width :: "forest \<Rightarrow> int \<Rightarrow> int" where
  "total_width h person =
     (if spouses (h person) \<noteq> [] then NODE_WIDTH + (NODE_WIDTH + SPOUSE_SPACING) else NODE_WIDTH)"

definition valid_children :: "forest \<Rightarrow> int \<Rightarrow> layout_state \<Rightarrow> int list" where
  "valid_children h person s =
     filter (\<lambda>child. \<not> list_ex (\<lambda>n. p_id (h (n_person n)) = p_id (h child)) (cur_nodes s))
       (children (h person))"

definition visit_child ::
    "nat \<Rightarrow> forest \<Rightarrow> nat \<Rightarrow> int \<Rightarrow> int \<Rightarrow> int \<Rightarrow> nat \<Rightarrow> int \<Rightarrow> layout_state \<Rightarrow> layout_state option" where
  "visit_child fuel h node_i level childXOffset parentY index child st =
     (let childX = childXOffset + int index * (NODE_WIDTH + SIBLING_SPACING)
      in case processNode fuel h child (level + 1) childX st of
           None \<Rightarrow> None
         | Some (childNode, st1) \<Rightarrow> Some (after_child node_i parentY childX childNode st1))"

definition visit_children :: "nat \<Rightarrow> forest \<Rightarrow> int \<Rightarrow> int \<Rightarrow> nat \<Rightarrow> layout_state \<Rightarrow> layout_state option" where
  "visit_children fuel h person level node_i s2 =
     (let validChildren = valid_children h person s2;
          len = int (length validChildren)
      in if validChildren \<noteq> [] then
           forEach_indexed
             (visit_child fuel h node_i level (childXOffset_of node_i len s2)
                (n_y (cur_nodes s2 ! node_i) + n_height (cur_nodes s2 ! node_i)))
             0 validChildren (children_connectors node_i len s2)
         else Some s2)"

subsection \<open>What the claim says about a layout\<close>

definition inside :: "Dimensions \<Rightarrow> TreeNode \<Rightarrow> bool" where
  "inside d n \<longleftrightarrow>
     0 \<le> n_x n \<and> 0 \<le> n_y n \<and> n_x n + n_width n \<le> dim_width d \<and> n_y n + n_height n \<le> dim_height d"

text \<open>
  The ids of the persons in the forest, and those that already have a node. The objects
  of a forest are finitely many, so \<open>person_ids\<close> is finite for every real input.
\<close>

definition person_ids :: "forest \<Rightarrow> int set" where
  "person_ids h = range (\<lambda>k. p_id (h k))"

definition placed_ids :: "forest \<Rightarrow> layout_state \<Rightarrow> int set" where
  "placed_ids h s = (\<lambda>n. p_id (h (n_person n))) ` set (cur_nodes s)"

text \<open>
  A node without its links; the links are all that changes in a node once it is pushed.
  One state \<open>grows\<close> into another when the bounds did not shrink and the nodes are the old
  ones, up to links, followed by new ones that lie inside the new bounds.
\<close>

definition unlinked :: "TreeNode \<Rightarrow> TreeNode" where
  "unlinked n = n\<lparr>n_children := None, n_spouse := None\<rparr>"

definition bounds :: "layout_state \<Rightarrow> Dimensions" where
  "bounds s = \<lparr>dim_width = maxWidth s, dim_height = maxHeight s\<rparr>"

definition grows :: "layout_state \<Rightarrow> layout_state \<Rightarrow> bool" where
  "grows s s' \<longleftrightarrow>
     maxWidth s \<le> maxWidth s' \<and> maxHeight s \<le> maxHeight s' \<and>
     (\<exists>new. map unlinked (cur_nodes s') = map unlinked (cur_nodes s) @ new \<and>
            (\<forall>n\<in>set new. inside (bounds s') n))"

text \<open>
  A forest to run the layout on: Ann (object 1) with spouse Carl (3) and children Bob (2)
  and Dan (4); Bob has the child Dan too, and Dan lists Ann as a child, which closes a
  cycle. Every other reference is to an object without relatives.
\<close>

definition example_object :: "int \<Rightarrow> int list \<Rightarrow> int list \<Rightarrow> FamilyTreePerson" where
  "example_object i sp ch =
     \<lparr>name = ''p'', gender = None, birthDate = None, birthPlace = None, deathDate = None,
      notes = None, p_id = i, children = ch, parents = [], spouses = sp, siblings = []\<rparr>"

definition example_forest :: forest where
  "example_forest k =
     (if k = 1 then example_object 1 [3] [2, 4]
      else if k = 2 then example_object 2 [] [4]
      else if k = 3 then example_object 3 [1] []
      else if k = 4 then example_object 4 [] [1]
      else example_object 0 [] [])"

section \<open>The record store: proofs\<close>

subsection \<open>Association lists as JavaScript maps\<close>

lemma fold_delete_filter:
  "fold (\<lambda>rel m. AList.delete (r_id rel) m) L m = filter (\<lambda>(k, v). k \<notin> r_id ` set L) m"
proof (induction L arbitrary: m)
  case Nil
  then show ?case by simp
next
  case (Cons a L)
  have "filter (\<lambda>(k, v). k \<notin> r_id ` set L) (AList.delete (r_id a) m)
        = filter (\<lambda>(k, v). k \<notin> r_id ` set (a # L)) m"
    by (auto simp: AList.delete_eq intro: filter_cong)
  with Cons show ?case by simp
qed

lemma update_fresh: "k \<notin> fst ` set m \<Longrightarrow> AList.update k v m = m @ [(k, v)]"
  by (induction m) auto

subsection \<open>Every reachable store is well formed\<close>

lemma wfD_key: "wf_store s \<Longrightarrow> (k, r) \<in> set (relationships s) \<Longrightarrow> r_id r = k \<and> 1 \<le> k \<and> k < currentRelationshipId s"
  by (auto simp: wf_store_def list_all_iff)

lemma wfD_pkey: "wf_store s \<Longrightarrow> (k, p) \<in> set (persons s) \<Longrightarrow> p_id p = k \<and> 1 \<le> k \<and> k < currentPersonId s"
  by (auto simp: wf_store_def list_all_iff)

lemma wf_fresh_rel: "wf_store s \<Longrightarrow> currentRelationshipId s \<notin> fst ` set (relationships s)"
  by (auto dest: wfD_key)

lemma wf_fresh_person: "wf_store s \<Longrightarrow> currentPersonId s \<notin> fst ` set (persons s)"
  by (auto dest: wfD_pkey)

lemma wf_new: "wf_store MemStorage_new"
  by (simp add: wf_store_def MemStorage_new_def)

lemma createPerson_eq:
  "wf_store s \<Longrightarrow> createPerson ins s =
     (person_with_id ins (currentPersonId s),
      s\<lparr>persons := persons s @ [(currentPersonId s, person_with_id ins (currentPersonId s))],
        currentPersonId := currentPersonId s + 1\<rparr>)"
  by (simp add: createPerson_def Let_def update_fresh[OF wf_fresh_person])

lemma p_id_with_id [simp]: "p_id (person_with_id ins i) = i"
  by (simp add: person_with_id_def InsertPerson.defs Person.defs)

lemma r_id_with_id [simp]: "r_id (relationship_with_id ins i) = i"
  by (simp add: relationship_with_id_def InsertRelationship.defs Relationship.defs)

lemma rel_with_id_fields [simp]:
  "r_type (relationship_with_id ins i) = r_type ins"
  "personId (relationship_with_id ins i) = personId ins"
  "relatedPersonId (relationship_with_id ins i) = relatedPersonId ins"
  by (simp_all add: relationship_with_id_def InsertRelationship.defs Relationship.defs)

lemma wf_createPerson: "wf_store s \<Longrightarrow> wf_store (snd (createPerson ins s))"
  by (auto simp: createPerson_eq wf_store_def list_all_iff)

lemma in_set_updateD: "(a, b) \<in> set (AList.update k v m) \<Longrightarrow> (a, b) = (k, v) \<or> (a, b) \<in> set m"
  by (induction m) (auto split: if_splits)

lemma wf_updatePerson: "wf_store s \<Longrightarrow> wf_store (snd (updatePerson i ins s))"
proof -
  assume w: "wf_store s"
  show ?thesis
  proof (cases "map_of (persons s) i")
    case None
    then show ?thesis using w by (simp add: updatePerson_def)
  next
    case (Some a)
    then have "i \<in> fst ` set (persons s)" by (metis domI dom_map_of_conv_image_fst)
    then have "1 \<le> i \<and> i < currentPersonId s" using w by (auto dest: wfD_pkey)
    then show ?thesis using w Some
      by (auto simp: updatePerson_def Let_def wf_store_def list_all_iff distinct_update
          dest!: in_set_updateD)
  qed
qed

lemma createRelationship_four:
  assumes "wf_store s" "is_four (r_type ins)"
  shows "createRelationship ins s =
     (relationship_with_id ins (currentRelationshipId s),
      s\<lparr>relationships := relationships s @
           [(currentRelationshipId s, relationship_with_id ins (currentRelationshipId s)),
            (currentRelationshipId s + 1,
             \<lparr>r_type = getReciprocalType (r_type ins), personId = relatedPersonId ins,
              relatedPersonId = personId ins, r_id = currentRelationshipId s + 1\<rparr>)],
        currentRelationshipId := currentRelationshipId s + 2\<rparr>)"
proof -
  let ?c = "currentRelationshipId s"
  have f1: "?c \<notin> fst ` set (relationships s)" by (rule wf_fresh_rel[OF assms(1)])
  have f2: "?c + 1 \<notin> fst ` set (relationships s @ [(?c, v)])" for v
    using assms(1) by (auto dest: wfD_key)
  show ?thesis using assms(2)
    by (auto simp: createRelationship_def add_reciprocal_def Let_def is_four_def
        getReciprocalType_def update_fresh[OF f1] update_fresh[OF f2])
qed

lemma createRelationship_other:
  assumes "wf_store s" "\<not> is_four (r_type ins)"
  shows "createRelationship ins s =
     (relationship_with_id ins (currentRelationshipId s),
      s\<lparr>relationships := relationships s @
           [(currentRelationshipId s, relationship_with_id ins (currentRelationshipId s))],
        currentRelationshipId := currentRelationshipId s + 1\<rparr>)"
proof -
  let ?c = "currentRelationshipId s"
  have f1: "?c \<notin> fst ` set (relationships s)" by (rule wf_fresh_rel[OF assms(1)])
  show ?thesis using assms(2)
    by (auto simp: createRelationship_def add_reciprocal_def Let_def is_four_def
        update_fresh[OF f1])
qed

lemma wf_createRelationship: "wf_store s \<Longrightarrow> wf_store (snd (createRelationship ins s))"
proof (cases "is_four (r_type ins)")
  case True
  assume w: "wf_store s"
  show ?thesis unfolding createRelationship_four[OF w True] using w
    by (auto simp: wf_store_def list_all_iff)
next
  case False
  assume w: "wf_store s"
  show ?thesis unfolding createRelationship_other[OF w False] using w
    by (auto simp: wf_store_def list_all_iff)
qed

subsection \<open>What the two deletes do to a well-formed store\<close>

lemma deleteRelationship_absent:
  "map_of (relationships s) i = None \<Longrightarrow> deleteRelationship i s = (False, s)"
  by (simp add: deleteRelationship_def)

lemma recips_image:
  assumes w: "wf_store s" and kr: "(k, r) \<in> set (relationships s)"
  shows "k \<in> r_id ` set (filter (is_reciprocal_of r0) (map_values (relationships s)))
         \<longleftrightarrow> is_reciprocal_of r0 r"
proof
  assume "k \<in> r_id ` set (filter (is_reciprocal_of r0) (map_values (relationships s)))"
  then obtain k' r' where a: "(k', r') \<in> set (relationships s)" "is_reciprocal_of r0 r'" "r_id r' = k"
    by (auto simp: map_values_def)
  from wfD_key[OF w a(1)] a(3) have "k' = k" by simp
  moreover have "distinct (map fst (relationships s))" using w by (simp add: wf_store_def)
  ultimately have "r' = r" using a(1) kr by (meson eq_key_imp_eq_value)
  with a(2) show "is_reciprocal_of r0 r" by simp
next
  assume "is_reciprocal_of r0 r"
  moreover have "r_id r = k" using wfD_key[OF w kr] by simp
  ultimately show "k \<in> r_id ` set (filter (is_reciprocal_of r0) (map_values (relationships s)))"
    using kr by (force simp: map_values_def)
qed

lemma deleteRelationship_present:
  assumes w: "wf_store s" and g: "map_of (relationships s) i = Some r0"
  shows "snd (deleteRelationship i s) =
           s\<lparr>relationships := filter (\<lambda>(k, r). k \<noteq> i \<and> \<not> is_reciprocal_of r0 r) (relationships s)\<rparr>"
    and "fst (deleteRelationship i s) \<longleftrightarrow> \<not> is_reciprocal_of r0 r0"
proof -
  let ?L = "filter (is_reciprocal_of r0) (map_values (relationships s))"
  let ?m1 = "filter (\<lambda>(k, v). k \<notin> r_id ` set ?L) (relationships s)"
  have m1: "?m1 = filter (\<lambda>(k, r). \<not> is_reciprocal_of r0 r) (relationships s)"
  proof (rule filter_cong[OF refl])
    fix x assume x: "x \<in> set (relationships s)"
    obtain k r where [simp]: "x = (k, r)" by (cases x)
    from recips_image[OF w, of k r r0] x
    show "(case x of (k, v) \<Rightarrow> k \<notin> r_id ` set ?L) = (case x of (k, r) \<Rightarrow> \<not> is_reciprocal_of r0 r)"
      by simp
  qed
  have mem: "(i, r0) \<in> set (relationships s)" using g by (rule map_of_SomeD)
  have d: "distinct (map fst (relationships s))" using w by (simp add: wf_store_def)
  have "AList.delete i ?m1 = filter (\<lambda>(k, r). k \<noteq> i \<and> \<not> is_reciprocal_of r0 r) (relationships s)"
    unfolding m1 by (auto simp: AList.delete_eq intro: filter_cong)
  then show "snd (deleteRelationship i s) =
           s\<lparr>relationships := filter (\<lambda>(k, r). k \<noteq> i \<and> \<not> is_reciprocal_of r0 r) (relationships s)\<rparr>"
    using g by (simp add: deleteRelationship_def Let_def fold_delete_filter)
  let ?m2 = "filter (\<lambda>(k, r). \<not> is_reciprocal_of r0 r) (relationships s)"
  have "map_has ?m2 i \<longleftrightarrow> \<not> is_reciprocal_of r0 r0"
  proof
    assume "map_has ?m2 i"
    then obtain r where "map_of ?m2 i = Some r"
      unfolding map_has_def by blast
    then have "(i, r) \<in> set ?m2" by (rule map_of_SomeD)
    then have "(i, r) \<in> set (relationships s)" "\<not> is_reciprocal_of r0 r"
      by auto
    moreover from this(1) mem d have "r = r0" by (meson eq_key_imp_eq_value)
    ultimately show "\<not> is_reciprocal_of r0 r0" by simp
  next
    assume "\<not> is_reciprocal_of r0 r0"
    then have "(i, r0) \<in> set ?m2" using mem by simp
    then have "i \<in> fst ` set ?m2" by force
    then show "map_has ?m2 i" unfolding map_has_def
      by (metis domIff dom_map_of_conv_image_fst)
  qed
  then show "fst (deleteRelationship i s) \<longleftrightarrow> \<not> is_reciprocal_of r0 r0"
    using g m1 by (simp add: deleteRelationship_def Let_def fold_delete_filter)
qed

lemma wf_filter_rels:
  "wf_store s \<Longrightarrow> wf_store (s\<lparr>relationships := filter P (relationships s)\<rparr>)"
  by (auto simp: wf_store_def list_all_iff distinct_map_filter)

lemma wf_deleteRelationship: "wf_store s \<Longrightarrow> wf_store (snd (deleteRelationship i s))"
proof (cases "map_of (relationships s) i")
  case None
  assume "wf_store s"
  then show ?thesis by (simp add: deleteRelationship_absent[OF None])
next
  case (Some r0)
  assume w: "wf_store s"
  show ?thesis unfolding deleteRelationship_present(1)[OF w Some] by (rule wf_filter_rels[OF w])
qed

lemma deleteRelationship_frame:
  "persons (snd (deleteRelationship i s)) = persons s"
  "currentPersonId (snd (deleteRelationship i s)) = currentPersonId s"
  "currentRelationshipId (snd (deleteRelationship i s)) = currentRelationshipId s"
  by (simp_all add: deleteRelationship_def Let_def split: option.splits)

lemma reciprocal_concerns: "is_reciprocal_of r0 r \<Longrightarrow> concerns i r0 \<Longrightarrow> concerns i r"
  by (auto simp: is_reciprocal_of_def concerns_def)

lemma deleteRelationship_step:
  assumes w: "wf_store s" and h: "\<forall>r. (j, r) \<in> set (relationships s) \<longrightarrow> concerns i r"
  shows "set (relationships (snd (deleteRelationship j s))) \<subseteq> set (relationships s)"
    and "filter (\<lambda>(k, r). \<not> concerns i r) (relationships (snd (deleteRelationship j s)))
         = filter (\<lambda>(k, r). \<not> concerns i r) (relationships s)"
    and "j \<notin> fst ` set (relationships (snd (deleteRelationship j s)))"
proof -
  let ?s' = "snd (deleteRelationship j s)"
  have "set (relationships ?s') \<subseteq> set (relationships s)
      \<and> filter (\<lambda>(k, r). \<not> concerns i r) (relationships ?s')
         = filter (\<lambda>(k, r). \<not> concerns i r) (relationships s)
      \<and> j \<notin> fst ` set (relationships ?s')"
  proof (cases "map_of (relationships s) j")
    case None
    then have "j \<notin> fst ` set (relationships s)"
      by (simp add: map_of_eq_None_iff)
    then show ?thesis by (simp add: deleteRelationship_absent[OF None])
  next
    case (Some r0)
    have c0: "concerns i r0" using h map_of_SomeD[OF Some] by blast
    have "filter (\<lambda>(k, r). \<not> concerns i r)
            (filter (\<lambda>(k, r). k \<noteq> j \<and> \<not> is_reciprocal_of r0 r) (relationships s))
          = filter (\<lambda>(k, r). \<not> concerns i r) (relationships s)"
      unfolding filter_filter
      by (rule filter_cong[OF refl]) (use h c0 in \<open>auto dest: reciprocal_concerns\<close>)
    then show ?thesis unfolding deleteRelationship_present(1)[OF w Some] by auto
  qed
  then show "set (relationships ?s') \<subseteq> set (relationships s)"
    and "filter (\<lambda>(k, r). \<not> concerns i r) (relationships ?s')
         = filter (\<lambda>(k, r). \<not> concerns i r) (relationships s)"
    and "j \<notin> fst ` set (relationships ?s')" by blast+
qed

lemma fold_deleteRelationship:
  assumes "wf_store s"
    and "\<forall>p\<in>set P. \<forall>r. (r_id p, r) \<in> set (relationships s) \<longrightarrow> concerns i r"
  shows "wf_store (fold (\<lambda>rel st. snd (deleteRelationship (r_id rel) st)) P s)
    \<and> persons (fold (\<lambda>rel st. snd (deleteRelationship (r_id rel) st)) P s) = persons s
    \<and> currentPersonId (fold (\<lambda>rel st. snd (deleteRelationship (r_id rel) st)) P s) = currentPersonId s
    \<and> currentRelationshipId (fold (\<lambda>rel st. snd (deleteRelationship (r_id rel) st)) P s) = currentRelationshipId s
    \<and> set (relationships (fold (\<lambda>rel st. snd (deleteRelationship (r_id rel) st)) P s)) \<subseteq> set (relationships s)
    \<and> filter (\<lambda>(k, r). \<not> concerns i r) (relationships (fold (\<lambda>rel st. snd (deleteRelationship (r_id rel) st)) P s))
        = filter (\<lambda>(k, r). \<not> concerns i r) (relationships s)
    \<and> (\<forall>p\<in>set P. r_id p \<notin> fst ` set (relationships (fold (\<lambda>rel st. snd (deleteRelationship (r_id rel) st)) P s)))"
  using assms
proof (induction P arbitrary: s)
  case Nil
  then show ?case by simp
next
  case (Cons p P)
  let ?s1 = "snd (deleteRelationship (r_id p) s)"
  have h: "\<forall>r. (r_id p, r) \<in> set (relationships s) \<longrightarrow> concerns i r"
    using Cons.prems(2) by simp
  note st = deleteRelationship_step[OF Cons.prems(1) h]
  have w1: "wf_store ?s1" by (rule wf_deleteRelationship[OF Cons.prems(1)])
  have h1: "\<forall>q\<in>set P. \<forall>r. (r_id q, r) \<in> set (relationships ?s1) \<longrightarrow> concerns i r"
    using Cons.prems(2) st(1) by auto
  note ih = Cons.IH[OF w1 h1]
  have "r_id p \<notin> fst ` set (relationships (fold (\<lambda>rel st. snd (deleteRelationship (r_id rel) st)) P ?s1))"
    using ih st(3) by blast
  then show ?case using ih st(1,2) by (auto simp: deleteRelationship_frame)
qed

lemma deletePerson_eq:
  assumes w: "wf_store s"
  shows "deletePerson i s =
     (map_has (persons s) i,
      s\<lparr>persons := AList.delete i (persons s),
        relationships := filter (\<lambda>(k, r). \<not> concerns i r) (relationships s)\<rparr>)"
proof -
  let ?P = "filter (concerns i) (map_values (relationships s))"
  let ?s1 = "fold (\<lambda>rel st. snd (deleteRelationship (r_id rel) st)) ?P s"
  have d: "distinct (map fst (relationships s))" using w by (simp add: wf_store_def)
  have h: "\<forall>p\<in>set ?P. \<forall>r. (r_id p, r) \<in> set (relationships s) \<longrightarrow> concerns i r"
  proof (intro ballI allI impI)
    fix p r assume p: "p \<in> set ?P" and r: "(r_id p, r) \<in> set (relationships s)"
    from p obtain k where k: "(k, p) \<in> set (relationships s)" and c: "concerns i p"
      by (auto simp: map_values_def)
    from wfD_key[OF w k] have "r_id p = k" by simp
    with k have "(r_id p, p) \<in> set (relationships s)" by simp
    from eq_key_imp_eq_value[OF d r this] have "r = p" .
    with c show "concerns i r" by simp
  qed
  note f = fold_deleteRelationship[OF w h]
  note f_persons = f[THEN conjunct2, THEN conjunct1]
  note f_cp = f[THEN conjunct2, THEN conjunct2, THEN conjunct1]
  note f_cr = f[THEN conjunct2, THEN conjunct2, THEN conjunct2, THEN conjunct1]
  note f_sub = f[THEN conjunct2, THEN conjunct2, THEN conjunct2, THEN conjunct2, THEN conjunct1]
  note f_keep = f[THEN conjunct2, THEN conjunct2, THEN conjunct2, THEN conjunct2, THEN conjunct2,
      THEN conjunct1]
  note f_gone = f[THEN conjunct2, THEN conjunct2, THEN conjunct2, THEN conjunct2, THEN conjunct2,
      THEN conjunct2]
  have none: "\<not> concerns i r" if kr: "(k, r) \<in> set (relationships ?s1)" for k r
  proof
    assume c: "concerns i r"
    from f_sub kr have kr0: "(k, r) \<in> set (relationships s)" by (rule subsetD)
    then have "r \<in> set ?P" using c by (force simp: map_values_def)
    with f_gone have "r_id r \<notin> fst ` set (relationships ?s1)" by (rule bspec)
    moreover have "r_id r = k" using wfD_key[OF w kr0] by simp
    ultimately show False using kr by force
  qed
  have "filter (\<lambda>(k, r). \<not> concerns i r) (relationships ?s1) = relationships ?s1"
    unfolding filter_id_conv
  proof
    fix x assume "x \<in> set (relationships ?s1)"
    then have "\<not> concerns i (snd x)" using none[of "fst x" "snd x"] by simp
    then show "case x of (k, r) \<Rightarrow> \<not> concerns i r" by (simp add: case_prod_unfold)
  qed
  with f_keep have r: "relationships ?s1 = filter (\<lambda>(k, r). \<not> concerns i r) (relationships s)"
    by simp
  have e: "?s1 = s\<lparr>relationships := filter (\<lambda>(k, r). \<not> concerns i r) (relationships s)\<rparr>"
    by (rule MemStorage.equality) (simp_all add: f_persons f_cp f_cr r)
  show ?thesis unfolding deletePerson_def Let_def e by simp
qed

lemma wf_deletePerson: "wf_store s \<Longrightarrow> wf_store (snd (deletePerson i s))"
  by (auto simp: deletePerson_eq wf_store_def list_all_iff distinct_map_filter
      AList.delete_eq)

lemma wf_step: "wf_store s \<Longrightarrow> wf_store (step x s)"
  by (cases x) (simp_all add: wf_createPerson wf_updatePerson wf_deletePerson
      wf_createRelationship wf_deleteRelationship)

lemma wf_run: "wf_store s \<Longrightarrow> wf_store (run xs s)"
  by (induction xs arbitrary: s) (simp_all add: wf_step)

lemma wf_reachable: "wf_store (run xs MemStorage_new)"
  by (rule wf_run[OF wf_new])

subsection \<open>The mirror invariant\<close>

lemma reciprocal_involution: "getReciprocalType (getReciprocalType t) = t"
  by (simp add: getReciprocalType_def)

lemma reciprocal_inj: "getReciprocalType a = getReciprocalType b \<Longrightarrow> a = b"
  by (metis reciprocal_involution)

lemma has_mirror_iff:
  "has_mirror m r \<longleftrightarrow> (\<exists>k q. (k, q) \<in> set m \<and> is_reciprocal_of r q)"
  by (force simp: has_mirror_def list_ex_iff map_values_def)

lemma mirrored_known_iff:
  "mirrored_known s \<longleftrightarrow>
     (\<forall>k r. (k, r) \<in> set (relationships s) \<longrightarrow> is_four (r_type r) \<longrightarrow> has_mirror (relationships s) r)"
  by (force simp: mirrored_known_def list_all_iff map_values_def)

lemma mirrored_knownI:
  assumes "\<And>k r. (k, r) \<in> set m \<Longrightarrow> is_four (r_type r) \<Longrightarrow> has_mirror m r"
  shows "mirrored_known (s\<lparr>relationships := m\<rparr>)"
  using assms by (simp add: mirrored_known_iff)

lemma has_mirror_mono: "set m \<subseteq> set m' \<Longrightarrow> has_mirror m r \<Longrightarrow> has_mirror m' r"
  by (auto simp: has_mirror_iff)

lemma mk_createPerson: "mirrored_known s \<Longrightarrow> mirrored_known (snd (createPerson ins s))"
  by (simp add: mirrored_known_def createPerson_def Let_def)

lemma mk_updatePerson: "mirrored_known s \<Longrightarrow> mirrored_known (snd (updatePerson i ins s))"
  by (simp add: mirrored_known_def updatePerson_def Let_def split: option.splits)

lemma mk_createRelationship:
  assumes w: "wf_store s" and m: "mirrored_known s"
  shows "mirrored_known (snd (createRelationship ins s))"
proof (cases "is_four (r_type ins)")
  case True
  let ?c = "currentRelationshipId s"
  let ?a = "relationship_with_id ins ?c"
  let ?b = "\<lparr>r_type = getReciprocalType (r_type ins), personId = relatedPersonId ins,
              relatedPersonId = personId ins, r_id = ?c + 1\<rparr>"
  let ?m' = "relationships s @ [(?c, ?a), (?c + 1, ?b)]"
  have ab: "is_reciprocal_of ?a ?b" by (simp add: is_reciprocal_of_def)
  have ba: "is_reciprocal_of ?b ?a"
    unfolding is_reciprocal_of_def using reciprocal_involution[of "r_type ins"]
    by (simp)
  have "has_mirror ?m' r" if "(k, r) \<in> set ?m'" "is_four (r_type r)" for k r
  proof -
    from that(1) have "(k, r) \<in> set (relationships s) \<or> r = ?a \<or> r = ?b" by simp blast
    then consider "(k, r) \<in> set (relationships s)" | "r = ?a" | "r = ?b" by blast
    then show ?thesis
    proof cases
      case 1
      then have "has_mirror (relationships s) r" using m that(2) by (simp add: mirrored_known_iff)
      then show ?thesis by (rule has_mirror_mono[rotated]) auto
    next
      case 2
      have "(?c + 1, ?b) \<in> set ?m'" by simp
      with ab show ?thesis unfolding has_mirror_iff 2 by blast
    next
      case 3
      have "(?c, ?a) \<in> set ?m'" by simp
      with ba show ?thesis unfolding has_mirror_iff 3 by blast
    qed
  qed
  then have "mirrored_known (s\<lparr>relationships := ?m'\<rparr>)" by (rule mirrored_knownI)
  then show ?thesis
    by (simp add: createRelationship_four[OF w True] mirrored_known_def)
next
  case False
  let ?c = "currentRelationshipId s"
  let ?a = "relationship_with_id ins ?c"
  let ?m' = "relationships s @ [(?c, ?a)]"
  have "has_mirror ?m' r" if "(k, r) \<in> set ?m'" "is_four (r_type r)" for k r
  proof -
    from that(1) have "(k, r) \<in> set (relationships s) \<or> r = ?a" by simp blast
    moreover have "r \<noteq> ?a" using that(2) False by (metis rel_with_id_fields(1))
    ultimately have "(k, r) \<in> set (relationships s)" by blast
    then have "has_mirror (relationships s) r" using m that(2) by (simp add: mirrored_known_iff)
    then show ?thesis by (rule has_mirror_mono[rotated]) auto
  qed
  then have "mirrored_known (s\<lparr>relationships := ?m'\<rparr>)" by (rule mirrored_knownI)
  then show ?thesis
    by (simp add: createRelationship_other[OF w False] mirrored_known_def)
qed

lemma reciprocal_concerns_iff: "is_reciprocal_of r q \<Longrightarrow> concerns i q \<longleftrightarrow> concerns i r"
  by (auto simp: is_reciprocal_of_def concerns_def)

lemma mk_deletePerson:
  assumes w: "wf_store s" and m: "mirrored_known s"
  shows "mirrored_known (snd (deletePerson i s))"
proof -
  let ?m' = "filter (\<lambda>(k, r). \<not> concerns i r) (relationships s)"
  have "has_mirror ?m' r" if "(k, r) \<in> set ?m'" "is_four (r_type r)" for k r
  proof -
    from that have kr: "(k, r) \<in> set (relationships s)" and nc: "\<not> concerns i r" by auto
    from m kr that(2) obtain k' q where q: "(k', q) \<in> set (relationships s)" "is_reciprocal_of r q"
      unfolding mirrored_known_iff has_mirror_iff by blast
    from reciprocal_concerns_iff[OF q(2)] nc have "\<not> concerns i q" by simp
    with q show ?thesis unfolding has_mirror_iff by fastforce
  qed
  then have "mirrored_known (s\<lparr>relationships := ?m'\<rparr>)" by (rule mirrored_knownI)
  then show ?thesis by (simp add: deletePerson_eq[OF w] mirrored_known_def)
qed

lemma reciprocal_same_edge: "is_reciprocal_of x a \<Longrightarrow> same_edge a b \<Longrightarrow> is_reciprocal_of x b"
  by (simp add: is_reciprocal_of_def same_edge_def)

lemma mk_deleteRelationship:
  assumes w: "wf_store s" and m: "mirrored_known s" and g: "delete_without_duplicate i s"
  shows "mirrored_known (snd (deleteRelationship i s))"
proof (cases "map_of (relationships s) i")
  case None
  then show ?thesis using m by (simp add: deleteRelationship_absent)
next
  case (Some r0)
  let ?m' = "filter (\<lambda>(k, r). k \<noteq> i \<and> \<not> is_reciprocal_of r0 r) (relationships s)"
  have d: "distinct (map fst (relationships s))" using w by (simp add: wf_store_def)
  have mem: "(i, r0) \<in> set (relationships s)" using Some by (rule map_of_SomeD)
  from g have "is_reciprocal_of r0 r0 \<or>
      \<not> list_ex (\<lambda>(k, r). k \<noteq> i \<and> same_edge r0 r) (relationships s)"
    by (simp add: delete_without_duplicate_def Some)
  then have g': "is_reciprocal_of r0 r0 \<or>
      (\<forall>x\<in>set (relationships s). \<not> (fst x \<noteq> i \<and> same_edge r0 (snd x)))"
    by (simp add: list_ex_iff case_prod_unfold)
  have "has_mirror ?m' r" if kr': "(k, r) \<in> set ?m'" and four: "is_four (r_type r)" for k r
  proof -
    from kr' have kr: "(k, r) \<in> set (relationships s)" and ki: "k \<noteq> i"
      and nr: "\<not> is_reciprocal_of r0 r" by simp_all
    from m kr four have "has_mirror (relationships s) r"
      unfolding mirrored_known_iff by blast
    then obtain k' q where q: "(k', q) \<in> set (relationships s)" "is_reciprocal_of r q"
      unfolding has_mirror_iff by blast
    have "k' \<noteq> i"
    proof
      assume "k' = i"
      with q(1) have "(i, q) \<in> set (relationships s)" by simp
      from eq_key_imp_eq_value[OF d this mem] have "q = r0" .
      with q(2) have "is_reciprocal_of r r0" by simp
      then have "is_reciprocal_of r0 r"
        unfolding is_reciprocal_of_def using reciprocal_involution[of "r_type r"]
        by simp
      with nr show False by simp
    qed
    moreover have "\<not> is_reciprocal_of r0 q"
    proof
      assume a: "is_reciprocal_of r0 q"
      with q(2) have te: "getReciprocalType (r_type r0) = getReciprocalType (r_type r)"
        and pe: "personId r0 = personId r" "relatedPersonId r0 = relatedPersonId r"
        by (simp_all add: is_reciprocal_of_def)
      from te have "r_type r0 = r_type r" by (rule reciprocal_inj)
      with pe have se: "same_edge r0 r" unfolding same_edge_def by simp
      from g' show False
      proof
        assume "is_reciprocal_of r0 r0"
        then have "is_reciprocal_of r0 r" using se by (rule reciprocal_same_edge)
        with nr show False by simp
      next
        assume "\<forall>x\<in>set (relationships s). \<not> (fst x \<noteq> i \<and> same_edge r0 (snd x))"
        from this[rule_format, OF kr] ki se show False by simp
      qed
    qed
    ultimately have "(k', q) \<in> set ?m'" using q(1) by simp
    with q(2) show ?thesis unfolding has_mirror_iff by blast
  qed
  then have "mirrored_known (s\<lparr>relationships := ?m'\<rparr>)" by (rule mirrored_knownI)
  then show ?thesis by (simp add: deleteRelationship_present(1)[OF w Some])
qed

lemma mk_new: "mirrored_known MemStorage_new"
  by (simp add: mirrored_known_def MemStorage_new_def map_values_def)

text \<open>
  Where the invariant is kept: by every operation except a \<open>deleteRelationship\<close> of a
  relationship that has a stored duplicate and is not its own reciprocal.
\<close>

lemma mirrored_known_run:
  assumes "run_allowed ops MemStorage_new"
  shows "mirrored_known (run ops MemStorage_new)"
proof -
  have "mirrored_known (run xs s)"
    if "wf_store s" "mirrored_known s" "run_allowed xs s" for xs s
    using that
  proof (induction xs arbitrary: s)
    case Nil
    then show ?case by simp
  next
    case (Cons x xs)
    have "mirrored_known (step x s)"
      using Cons.prems
      by (cases x) (simp_all add: mk_createPerson mk_updatePerson mk_deletePerson
          mk_createRelationship mk_deleteRelationship)
    moreover have "wf_store (step x s)" using Cons.prems(1) by (rule wf_step)
    ultimately show ?case using Cons.IH Cons.prems(3) by simp
  qed
  from this[OF wf_new mk_new assms] show ?thesis .
qed

subsection \<open>Claims about the record store\<close>

lemmas store_eval = createRelationship_def add_reciprocal_def Let_def relationship_with_id_def
  InsertRelationship.defs Relationship.defs deleteRelationship_def map_values_def
  is_reciprocal_of_def getReciprocalType_def map_has_def MemStorage_new_def
  createPerson_def updatePerson_def deletePerson_def concerns_def person_with_id_def
  InsertPerson.defs Person.defs AList.delete_eq has_mirror_def mirrored_def mirrored_known_def
  is_four_def same_edge_def delete_without_duplicate_def

text \<open>
  C1. The store alone does not keep the mirror invariant. Recording the same parent edge
  twice gives two parent records and two child records, all mirrored. Deleting the first
  parent record then succeeds and removes, besides that record, every stored reciprocal,
  that is both child records; the second parent record stays in the store without a
  mirror. The same happens when the edge is first recorded as parent and then, from the
  other side, as child.
\<close>

theorem mirror_invariant_lost_by_delete:
  "relationships (run [CreateRelationship \<lparr>r_type = ''parent'', personId = 1, relatedPersonId = 2\<rparr>,
         CreateRelationship \<lparr>r_type = ''parent'', personId = 1, relatedPersonId = 2\<rparr>] MemStorage_new)
     = [(1, \<lparr>r_type = ''parent'', personId = 1, relatedPersonId = 2, r_id = 1\<rparr>), (2, \<lparr>r_type = ''child'', personId = 2, relatedPersonId = 1, r_id = 2\<rparr>),
        (3, \<lparr>r_type = ''parent'', personId = 1, relatedPersonId = 2, r_id = 3\<rparr>), (4, \<lparr>r_type = ''child'', personId = 2, relatedPersonId = 1, r_id = 4\<rparr>)]
   \<and> mirrored (run [CreateRelationship \<lparr>r_type = ''parent'', personId = 1, relatedPersonId = 2\<rparr>,
         CreateRelationship \<lparr>r_type = ''parent'', personId = 1, relatedPersonId = 2\<rparr>] MemStorage_new)
   \<and> deleteRelationship 1 (run [CreateRelationship \<lparr>r_type = ''parent'', personId = 1, relatedPersonId = 2\<rparr>,
         CreateRelationship \<lparr>r_type = ''parent'', personId = 1, relatedPersonId = 2\<rparr>] MemStorage_new)
     = (True, \<lparr>persons = [], relationships = [(3, \<lparr>r_type = ''parent'', personId = 1, relatedPersonId = 2, r_id = 3\<rparr>)],
               currentPersonId = 1, currentRelationshipId = 5\<rparr>)
   \<and> \<not> has_mirror (relationships (run [CreateRelationship \<lparr>r_type = ''parent'', personId = 1, relatedPersonId = 2\<rparr>,
         CreateRelationship \<lparr>r_type = ''parent'', personId = 1, relatedPersonId = 2\<rparr>,
         DeleteRelationship 1] MemStorage_new)) \<lparr>r_type = ''parent'', personId = 1, relatedPersonId = 2, r_id = 3\<rparr>
   \<and> \<not> mirrored (run [CreateRelationship \<lparr>r_type = ''parent'', personId = 1, relatedPersonId = 2\<rparr>,
         CreateRelationship \<lparr>r_type = ''parent'', personId = 1, relatedPersonId = 2\<rparr>,
         DeleteRelationship 1] MemStorage_new)
   \<and> relationships (run [CreateRelationship \<lparr>r_type = ''parent'', personId = 1, relatedPersonId = 2\<rparr>,
         CreateRelationship \<lparr>r_type = ''child'', personId = 2, relatedPersonId = 1\<rparr>,
         DeleteRelationship 1] MemStorage_new)
     = [(4, \<lparr>r_type = ''parent'', personId = 1, relatedPersonId = 2, r_id = 4\<rparr>)]
   \<and> \<not> mirrored (run [CreateRelationship \<lparr>r_type = ''parent'', personId = 1, relatedPersonId = 2\<rparr>,
         CreateRelationship \<lparr>r_type = ''child'', personId = 2, relatedPersonId = 1\<rparr>,
         DeleteRelationship 1] MemStorage_new)"
  by (simp add: store_eval)

text \<open>
  C2. In every reachable store and for every insert request of type parent, child,
  spouse or sibling, \<open>createRelationship\<close> appends the requested relationship under the
  next id and, under the id after that, one relationship of the reciprocal type with
  personId and relatedPersonId swapped (parent gives child, child gives parent, spouse
  and sibling give the same type); it returns the requested relationship with its id.
\<close>

theorem createRelationship_records_reciprocal:
  assumes "r_type ins \<in> {''parent'', ''child'', ''spouse'', ''sibling''}"
  shows "createRelationship ins (run ops MemStorage_new) =
        (\<lparr>r_type = r_type ins, personId = personId ins, relatedPersonId = relatedPersonId ins,
          r_id = currentRelationshipId (run ops MemStorage_new)\<rparr>,
         (run ops MemStorage_new)
           \<lparr>relationships := relationships (run ops MemStorage_new) @
              [(currentRelationshipId (run ops MemStorage_new),
                \<lparr>r_type = r_type ins, personId = personId ins, relatedPersonId = relatedPersonId ins,
                 r_id = currentRelationshipId (run ops MemStorage_new)\<rparr>),
               (currentRelationshipId (run ops MemStorage_new) + 1,
                \<lparr>r_type = getReciprocalType (r_type ins), personId = relatedPersonId ins,
                 relatedPersonId = personId ins,
                 r_id = currentRelationshipId (run ops MemStorage_new) + 1\<rparr>)],
            currentRelationshipId := currentRelationshipId (run ops MemStorage_new) + 2\<rparr>)
   \<and> getReciprocalType ''parent'' = ''child'' \<and> getReciprocalType ''child'' = ''parent''
   \<and> getReciprocalType ''spouse'' = ''spouse'' \<and> getReciprocalType ''sibling'' = ''sibling''"
proof -
  have w: "wf_store (run ops MemStorage_new)" by (rule wf_reachable)
  have f: "is_four (r_type ins)" using assms by (auto simp: is_four_def)
  have r: "relationship_with_id ins c
       = \<lparr>r_type = r_type ins, personId = personId ins, relatedPersonId = relatedPersonId ins,
          r_id = c\<rparr>" for c
    by (simp add: relationship_with_id_def InsertRelationship.defs Relationship.defs)
  show ?thesis
    using createRelationship_four[OF w f]
    unfolding r by (simp add: getReciprocalType_def)
qed

theorem createRelationship_records_reciprocal_witness:
  "''parent'' \<in> {''parent'', ''child'', ''spouse'', ''sibling''}
   \<and> createRelationship \<lparr>r_type = ''parent'', personId = 1, relatedPersonId = 2\<rparr>
        (run [CreateRelationship \<lparr>r_type = ''spouse'', personId = 1, relatedPersonId = 3\<rparr>] MemStorage_new)
      = (\<lparr>r_type = ''parent'', personId = 1, relatedPersonId = 2, r_id = 3\<rparr>,
         \<lparr>persons = [],
          relationships =
            [(1, \<lparr>r_type = ''spouse'', personId = 1, relatedPersonId = 3, r_id = 1\<rparr>),
             (2, \<lparr>r_type = ''spouse'', personId = 3, relatedPersonId = 1, r_id = 2\<rparr>),
             (3, \<lparr>r_type = ''parent'', personId = 1, relatedPersonId = 2, r_id = 3\<rparr>),
             (4, \<lparr>r_type = ''child'', personId = 2, relatedPersonId = 1, r_id = 4\<rparr>)],
          currentPersonId = 1, currentRelationshipId = 5\<rparr>)"
proof -
  have h: "r_type \<lparr>r_type = ''parent'', personId = 1, relatedPersonId = 2\<rparr>
      \<in> {''parent'', ''child'', ''spouse'', ''sibling''}" by simp
  from createRelationship_records_reciprocal[OF h,
      of "[CreateRelationship \<lparr>r_type = ''spouse'', personId = 1, relatedPersonId = 3\<rparr>]"]
  show ?thesis by (simp add: store_eval)
qed

text \<open>
  C3. \<open>deleteRelationship\<close> on a stored id removes the relationship and every stored
  reciprocal (lemma \<open>deleteRelationship_present\<close>) and leaves the store alone on a
  missing id (lemma \<open>deleteRelationship_absent\<close>), but its result is what the final
  \<open>Map.delete\<close> returns: when the relationship is its own reciprocal (a spouse or sibling
  edge from a person to the same person) the loop has already removed it, and the call
  answers \<open>false\<close> for a relationship it found and removed.
\<close>

theorem deleteRelationship_own_reciprocal_returns_false:
  "map_of (relationships (run [CreateRelationship \<lparr>r_type = ''spouse'', personId = 1, relatedPersonId = 1\<rparr>]
       MemStorage_new)) 1
     = Some \<lparr>r_type = ''spouse'', personId = 1, relatedPersonId = 1, r_id = 1\<rparr>
   \<and> deleteRelationship 1
       (run [CreateRelationship \<lparr>r_type = ''spouse'', personId = 1, relatedPersonId = 1\<rparr>] MemStorage_new)
     = (False, \<lparr>persons = [], relationships = [], currentPersonId = 1, currentRelationshipId = 3\<rparr>)"
  by (simp add: store_eval)

lemma map_of_delete_self: "map_of (AList.delete i m) i = None"
  by (simp add: delete_conv')

lemma delete_absent: "map_of m i = None \<Longrightarrow> AList.delete i m = m"
  by (induction m) (auto split: if_splits)

text \<open>
  C4. In every reachable store and for every id, after \<open>deletePerson\<close> no person is
  stored under the id, no remaining relationship has the id as personId or
  relatedPersonId (exactly those relationships are removed), and the result is true
  exactly when a person was stored under the id.
\<close>

theorem deletePerson_cascades:
  "map_of (persons (snd (deletePerson i (run ops MemStorage_new)))) i = None
   \<and> list_all (\<lambda>(k, r). personId r \<noteq> i \<and> relatedPersonId r \<noteq> i)
        (relationships (snd (deletePerson i (run ops MemStorage_new))))
   \<and> relationships (snd (deletePerson i (run ops MemStorage_new)))
        = filter (\<lambda>(k, r). \<not> (personId r = i \<or> relatedPersonId r = i))
            (relationships (run ops MemStorage_new))
   \<and> (fst (deletePerson i (run ops MemStorage_new))
        \<longleftrightarrow> map_of (persons (run ops MemStorage_new)) i \<noteq> None)"
proof -
  have w: "wf_store (run ops MemStorage_new)" by (rule wf_reachable)
  show ?thesis unfolding deletePerson_eq[OF w]
    by (simp add: map_of_delete_self list_all_iff concerns_def map_has_def case_prod_unfold)
qed

theorem deletePerson_cascades_witness:
  "deletePerson 1
     (run [CreatePerson \<lparr>name = ''Ann'', gender = None, birthDate = None, birthPlace = None, deathDate = None, notes = None\<rparr>,
           CreatePerson \<lparr>name = ''Bob'', gender = None, birthDate = None, birthPlace = None, deathDate = None, notes = None\<rparr>,
           CreateRelationship \<lparr>r_type = ''parent'', personId = 1, relatedPersonId = 2\<rparr>,
           CreateRelationship \<lparr>r_type = ''sibling'', personId = 2, relatedPersonId = 3\<rparr>] MemStorage_new)
     = (True,
        \<lparr>persons = [(2, \<lparr>name = ''Bob'', gender = None, birthDate = None, birthPlace = None, deathDate = None, notes = None, p_id = 2\<rparr>)],
         relationships = [(3, \<lparr>r_type = ''sibling'', personId = 2, relatedPersonId = 3, r_id = 3\<rparr>),
                          (4, \<lparr>r_type = ''sibling'', personId = 3, relatedPersonId = 2, r_id = 4\<rparr>)],
         currentPersonId = 3, currentRelationshipId = 5\<rparr>)
   \<and> list_all (\<lambda>(k, r). personId r \<noteq> 1 \<and> relatedPersonId r \<noteq> 1)
        (relationships (snd (deletePerson 1
     (run [CreatePerson \<lparr>name = ''Ann'', gender = None, birthDate = None, birthPlace = None, deathDate = None, notes = None\<rparr>,
           CreatePerson \<lparr>name = ''Bob'', gender = None, birthDate = None, birthPlace = None, deathDate = None, notes = None\<rparr>,
           CreateRelationship \<lparr>r_type = ''parent'', personId = 1, relatedPersonId = 2\<rparr>,
           CreateRelationship \<lparr>r_type = ''sibling'', personId = 2, relatedPersonId = 3\<rparr>] MemStorage_new))))"
  using deletePerson_cascades[of 1
     "[CreatePerson \<lparr>name = ''Ann'', gender = None, birthDate = None, birthPlace = None, deathDate = None, notes = None\<rparr>,
           CreatePerson \<lparr>name = ''Bob'', gender = None, birthDate = None, birthPlace = None, deathDate = None, notes = None\<rparr>,
           CreateRelationship \<lparr>r_type = ''parent'', personId = 1, relatedPersonId = 2\<rparr>,
           CreateRelationship \<lparr>r_type = ''sibling'', personId = 2, relatedPersonId = 3\<rparr>]"]
  by (simp add: store_eval)

text \<open>
  C9. When no person is stored under the id, \<open>deletePerson\<close> returns false and leaves
  the persons map as it is, yet the relationships map loses every relationship that names
  the id (their mirrors name the id too, so they go with them).
\<close>

theorem deletePerson_not_found_still_cascades:
  "map_of (persons (run ops MemStorage_new)) i = None \<Longrightarrow>
     fst (deletePerson i (run ops MemStorage_new)) = False
   \<and> persons (snd (deletePerson i (run ops MemStorage_new))) = persons (run ops MemStorage_new)
   \<and> relationships (snd (deletePerson i (run ops MemStorage_new)))
        = filter (\<lambda>(k, r). \<not> (personId r = i \<or> relatedPersonId r = i))
            (relationships (run ops MemStorage_new))"
proof -
  assume a: "map_of (persons (run ops MemStorage_new)) i = None"
  have w: "wf_store (run ops MemStorage_new)" by (rule wf_reachable)
  show ?thesis unfolding deletePerson_eq[OF w]
    using a by (simp add: delete_absent concerns_def map_has_def)
qed

theorem deletePerson_not_found_still_cascades_witness:
  "map_of (persons (run [CreateRelationship \<lparr>r_type = ''parent'', personId = 5, relatedPersonId = 6\<rparr>,
             CreateRelationship \<lparr>r_type = ''spouse'', personId = 6, relatedPersonId = 7\<rparr>] MemStorage_new)) 5 = None
   \<and> relationships (run [CreateRelationship \<lparr>r_type = ''parent'', personId = 5, relatedPersonId = 6\<rparr>,
             CreateRelationship \<lparr>r_type = ''spouse'', personId = 6, relatedPersonId = 7\<rparr>] MemStorage_new)
      = [(1, \<lparr>r_type = ''parent'', personId = 5, relatedPersonId = 6, r_id = 1\<rparr>),
         (2, \<lparr>r_type = ''child'', personId = 6, relatedPersonId = 5, r_id = 2\<rparr>),
         (3, \<lparr>r_type = ''spouse'', personId = 6, relatedPersonId = 7, r_id = 3\<rparr>),
         (4, \<lparr>r_type = ''spouse'', personId = 7, relatedPersonId = 6, r_id = 4\<rparr>)]
   \<and> deletePerson 5 (run [CreateRelationship \<lparr>r_type = ''parent'', personId = 5, relatedPersonId = 6\<rparr>,
             CreateRelationship \<lparr>r_type = ''spouse'', personId = 6, relatedPersonId = 7\<rparr>] MemStorage_new)
      = (False,
         \<lparr>persons = [],
          relationships = [(3, \<lparr>r_type = ''spouse'', personId = 6, relatedPersonId = 7, r_id = 3\<rparr>),
                           (4, \<lparr>r_type = ''spouse'', personId = 7, relatedPersonId = 6, r_id = 4\<rparr>)],
          currentPersonId = 1, currentRelationshipId = 5\<rparr>)"
proof -
  have a: "map_of (persons (run [CreateRelationship \<lparr>r_type = ''parent'', personId = 5, relatedPersonId = 6\<rparr>,
             CreateRelationship \<lparr>r_type = ''spouse'', personId = 6, relatedPersonId = 7\<rparr>] MemStorage_new)) 5 = None"
    by (simp add: store_eval)
  show ?thesis
    using a deletePerson_not_found_still_cascades[OF a]
    by (simp add: store_eval)
qed

lemma map_has_iff: "map_has m k \<longleftrightarrow> k \<in> fst ` set m"
  by (simp add: map_has_def map_of_eq_None_iff)

lemma counters_step:
  assumes "wf_store s"
  shows "currentPersonId s \<le> currentPersonId (step x s)
       \<and> currentRelationshipId s \<le> currentRelationshipId (step x s)"
proof (cases x)
  case (CreatePerson ins)
  then show ?thesis by (simp add: createPerson_def Let_def)
next
  case (UpdatePerson i ins)
  then show ?thesis by (simp add: updatePerson_def Let_def split: option.splits)
next
  case (DeletePerson i)
  then show ?thesis by (simp add: deletePerson_eq[OF assms])
next
  case (CreateRelationship ins)
  then show ?thesis
    using createRelationship_four[OF assms, of ins] createRelationship_other[OF assms, of ins]
    by (cases "is_four (r_type ins)") simp_all
next
  case (DeleteRelationship i)
  then show ?thesis by (simp add: deleteRelationship_frame)
qed

lemma counters_run:
  "wf_store s \<Longrightarrow> currentPersonId s \<le> currentPersonId (run xs s)
       \<and> currentRelationshipId s \<le> currentRelationshipId (run xs s)"
proof (induction xs arbitrary: s)
  case Nil
  then show ?case by simp
next
  case (Cons x xs)
  from Cons.IH[OF wf_step[OF Cons.prems]] counters_step[OF Cons.prems, of x]
  show ?case by simp (meson order_trans)
qed

lemma new_relationship_ids_eq:
  assumes w: "wf_store s"
  shows "new_relationship_ids ins s =
     (if is_four (r_type ins) then [currentRelationshipId s, currentRelationshipId s + 1]
      else [currentRelationshipId s])"
proof -
  have old: "filter (\<lambda>k. k \<notin> fst ` set (relationships s)) (map fst (relationships s)) = []"
    by (simp add: filter_empty_conv)
  have f1: "currentRelationshipId s \<notin> fst ` set (relationships s)"
    using w by (rule wf_fresh_rel)
  have f2: "currentRelationshipId s + 1 \<notin> fst ` set (relationships s)"
    using w by (auto dest: wfD_key)
  show ?thesis
  proof (cases "is_four (r_type ins)")
    case True
    show ?thesis unfolding new_relationship_ids_def createRelationship_four[OF w True]
      using old f1 f2 True by (simp add: map_has_iff)
  next
    case False
    show ?thesis unfolding new_relationship_ids_def createRelationship_other[OF w False]
      using old f1 False by (simp add: map_has_iff)
  qed
qed

lemma createRelationship_counter:
  assumes w: "wf_store s"
  shows "currentRelationshipId (snd (createRelationship ins s)) =
     (if is_four (r_type ins) then currentRelationshipId s + 2 else currentRelationshipId s + 1)"
  using createRelationship_four[OF w, of ins] createRelationship_other[OF w, of ins]
  by (cases "is_four (r_type ins)") simp_all

lemma createRelationship_returns:
  "fst (createRelationship ins s) = relationship_with_id ins (currentRelationshipId s)"
  by (simp add: createRelationship_def Let_def)

lemma map_keyed: "(\<And>k v. (k, v) \<in> set m \<Longrightarrow> f v = k) \<Longrightarrow> map (\<lambda>(k, v). f v) m = map fst m"
  by (induction m) auto

text \<open>
  C7. Both counters start at 1. In every reachable store \<open>createPerson\<close> gives the new
  person the counter value and stores it under that key; the value is above every stored
  person id and below the id of every later \<open>createPerson\<close>. \<open>createRelationship\<close> adds
  to the map exactly the key of the counter and, for a type with a reciprocal, the key
  after it, in that order: the requested record is stored under the first and the
  reciprocal record, carrying the larger id, under the second, and the counter moves
  past both. These ids are above every stored relationship id and below those of every
  later \<open>createRelationship\<close>. In each map every record is stored under its own id and
  the ids are pairwise distinct. The caller's records \<open>a\<close>, \<open>b\<close>, \<open>c\<close>, \<open>d\<close> are arbitrary.
\<close>

theorem ids_auto_increment:
  "currentPersonId MemStorage_new = 1 \<and> currentRelationshipId MemStorage_new = 1
   \<and> p_id (fst (createPerson a (run ops MemStorage_new))) = currentPersonId (run ops MemStorage_new)
   \<and> currentPersonId (snd (createPerson a (run ops MemStorage_new)))
        = currentPersonId (run ops MemStorage_new) + 1
   \<and> list_all (\<lambda>(k, p). k < p_id (fst (createPerson a (run ops MemStorage_new))))
        (persons (run ops MemStorage_new))
   \<and> p_id (fst (createPerson a (run ops MemStorage_new)))
        < p_id (fst (createPerson b (run ops' (snd (createPerson a (run ops MemStorage_new))))))
   \<and> r_id (fst (createRelationship c (run ops MemStorage_new)))
        = currentRelationshipId (run ops MemStorage_new)
   \<and> r_id (fst (createRelationship c (run ops MemStorage_new)))
        \<in> set (new_relationship_ids c (run ops MemStorage_new))
   \<and> list_all (\<lambda>j. list_all (\<lambda>(k, r). k < j) (relationships (run ops MemStorage_new)))
        (new_relationship_ids c (run ops MemStorage_new))
   \<and> list_all (\<lambda>j. list_all (\<lambda>j'. j < j')
          (new_relationship_ids d (run ops' (snd (createRelationship c (run ops MemStorage_new))))))
        (new_relationship_ids c (run ops MemStorage_new))
   \<and> distinct (map fst (persons (run ops MemStorage_new)))
   \<and> list_all (\<lambda>(k, p). p_id p = k \<and> 1 \<le> k) (persons (run ops MemStorage_new))
   \<and> distinct (map (\<lambda>(k, p). p_id p) (persons (run ops MemStorage_new)))
   \<and> distinct (map fst (relationships (run ops MemStorage_new)))
   \<and> list_all (\<lambda>(k, r). r_id r = k \<and> 1 \<le> k) (relationships (run ops MemStorage_new))
   \<and> distinct (map (\<lambda>(k, r). r_id r) (relationships (run ops MemStorage_new)))
   \<and> persons (snd (createPerson a (run ops MemStorage_new)))
        = persons (run ops MemStorage_new)
          @ [(currentPersonId (run ops MemStorage_new), fst (createPerson a (run ops MemStorage_new)))]
   \<and> new_relationship_ids c (run ops MemStorage_new)
        = (if r_type c \<in> {''parent'', ''child'', ''spouse'', ''sibling''}
           then [currentRelationshipId (run ops MemStorage_new),
                 currentRelationshipId (run ops MemStorage_new) + 1]
           else [currentRelationshipId (run ops MemStorage_new)])
   \<and> map fst (relationships (snd (createRelationship c (run ops MemStorage_new))))
        = map fst (relationships (run ops MemStorage_new))
          @ new_relationship_ids c (run ops MemStorage_new)
   \<and> list_all (\<lambda>(k, r). r_id r = k)
        (relationships (snd (createRelationship c (run ops MemStorage_new))))
   \<and> (r_type c \<in> {''parent'', ''child'', ''spouse'', ''sibling''} \<longrightarrow>
        map_of (relationships (snd (createRelationship c (run ops MemStorage_new))))
          (currentRelationshipId (run ops MemStorage_new) + 1)
        = Some \<lparr>r_type = getReciprocalType (r_type c), personId = relatedPersonId c,
                 relatedPersonId = personId c,
                 r_id = currentRelationshipId (run ops MemStorage_new) + 1\<rparr>)
   \<and> map_of (relationships (snd (createRelationship c (run ops MemStorage_new))))
          (currentRelationshipId (run ops MemStorage_new))
        = Some (fst (createRelationship c (run ops MemStorage_new)))
   \<and> currentRelationshipId (snd (createRelationship c (run ops MemStorage_new)))
        = currentRelationshipId (run ops MemStorage_new)
          + int (length (new_relationship_ids c (run ops MemStorage_new)))"
proof -
  let ?s = "run ops MemStorage_new"
  have w: "wf_store ?s" by (rule wf_reachable)
  have c0: "currentPersonId MemStorage_new = 1 \<and> currentRelationshipId MemStorage_new = 1"
    by (simp add: MemStorage_new_def)
  have p1: "p_id (fst (createPerson a ?s)) = currentPersonId ?s"
    and p2: "currentPersonId (snd (createPerson a ?s)) = currentPersonId ?s + 1"
    by (simp_all add: createPerson_def Let_def)
  have p3: "list_all (\<lambda>(k, p). k < p_id (fst (createPerson a ?s))) (persons ?s)"
    unfolding p1 list_all_iff using wfD_pkey[OF w] by auto
  let ?t = "run ops' (snd (createPerson a ?s))"
  have "p_id (fst (createPerson b ?t)) = currentPersonId ?t"
    by (simp add: createPerson_def Let_def)
  moreover have "currentPersonId (snd (createPerson a ?s)) \<le> currentPersonId ?t"
    using counters_run[OF wf_createPerson[OF w]] by blast
  ultimately have p4: "p_id (fst (createPerson a ?s)) < p_id (fst (createPerson b ?t))"
    using p1 p2 by simp
  have r1: "r_id (fst (createRelationship c ?s)) = currentRelationshipId ?s"
    by (simp add: createRelationship_returns)
  have r2: "r_id (fst (createRelationship c ?s)) \<in> set (new_relationship_ids c ?s)"
    unfolding r1 new_relationship_ids_eq[OF w] by simp
  have r3: "list_all (\<lambda>j. list_all (\<lambda>(k, r). k < j) (relationships ?s)) (new_relationship_ids c ?s)"
    unfolding new_relationship_ids_eq[OF w] list_all_iff using wfD_key[OF w]
    by (auto split: if_splits) force
  let ?u = "run ops' (snd (createRelationship c ?s))"
  have wu: "wf_store ?u" by (rule wf_run[OF wf_createRelationship[OF w]])
  have le: "currentRelationshipId (snd (createRelationship c ?s)) \<le> currentRelationshipId ?u"
    using counters_run[OF wf_createRelationship[OF w]] by blast
  have r4: "list_all (\<lambda>j. list_all (\<lambda>j'. j < j') (new_relationship_ids d ?u))
        (new_relationship_ids c ?s)"
    unfolding new_relationship_ids_eq[OF w] new_relationship_ids_eq[OF wu]
    using le unfolding createRelationship_counter[OF w] by (simp split: if_splits)
  have d1: "distinct (map fst (persons ?s))" and d2: "distinct (map fst (relationships ?s))"
    using w by (simp_all add: wf_store_def)
  have k1: "list_all (\<lambda>(k, p). p_id p = k \<and> 1 \<le> k) (persons ?s)"
    unfolding list_all_iff using wfD_pkey[OF w] by auto
  have k2: "list_all (\<lambda>(k, r). r_id r = k \<and> 1 \<le> k) (relationships ?s)"
    unfolding list_all_iff using wfD_key[OF w] by auto
  have m1: "map (\<lambda>(k, p). p_id p) (persons ?s) = map fst (persons ?s)"
    using wfD_pkey[OF w] by (intro map_keyed) auto
  have e1: "distinct (map (\<lambda>(k, p). p_id p) (persons ?s))" unfolding m1 by (rule d1)
  have m2: "map (\<lambda>(k, r). r_id r) (relationships ?s) = map fst (relationships ?s)"
    using wfD_key[OF w] by (intro map_keyed) auto
  have e2: "distinct (map (\<lambda>(k, r). r_id r) (relationships ?s))" unfolding m2 by (rule d2)
  have f: "is_four (r_type c) \<longleftrightarrow> r_type c \<in> {''parent'', ''child'', ''spouse'', ''sibling''}"
    by (auto simp: is_four_def)
  let ?c = "currentRelationshipId ?s"
  have q1: "persons (snd (createPerson a ?s)) = persons ?s @ [(currentPersonId ?s, fst (createPerson a ?s))]"
    by (simp add: createPerson_eq[OF w])
  have q2: "new_relationship_ids c ?s
        = (if r_type c \<in> {''parent'', ''child'', ''spouse'', ''sibling''} then [?c, ?c + 1] else [?c])"
    unfolding new_relationship_ids_eq[OF w] f ..
  have q3: "map fst (relationships (snd (createRelationship c ?s)))
        = map fst (relationships ?s) @ new_relationship_ids c ?s"
  proof (cases "is_four (r_type c)")
    case True
    then show ?thesis
      unfolding new_relationship_ids_eq[OF w] by (simp add: createRelationship_four[OF w True])
  next
    case False
    then show ?thesis
      unfolding new_relationship_ids_eq[OF w] by (simp add: createRelationship_other[OF w False])
  qed
  have q4: "list_all (\<lambda>(k, r). r_id r = k) (relationships (snd (createRelationship c ?s)))"
    unfolding list_all_iff using wfD_key[OF wf_createRelationship[OF w, of c]] by auto
  have nk: "?c \<notin> fst ` set (relationships ?s)" "?c + 1 \<notin> fst ` set (relationships ?s)"
    using wfD_key[OF w] by force+
  then have nm: "map_of (relationships ?s) ?c = None" "map_of (relationships ?s) (?c + 1) = None"
    by (simp_all add: map_of_eq_None_iff)
  have q5: "r_type c \<in> {''parent'', ''child'', ''spouse'', ''sibling''} \<longrightarrow>
        map_of (relationships (snd (createRelationship c ?s))) (?c + 1)
        = Some \<lparr>r_type = getReciprocalType (r_type c), personId = relatedPersonId c,
                 relatedPersonId = personId c, r_id = ?c + 1\<rparr>"
  proof
    assume "r_type c \<in> {''parent'', ''child'', ''spouse'', ''sibling''}"
    then have t: "is_four (r_type c)" by (simp only: f)
    show "map_of (relationships (snd (createRelationship c ?s))) (?c + 1)
        = Some \<lparr>r_type = getReciprocalType (r_type c), personId = relatedPersonId c,
                 relatedPersonId = personId c, r_id = ?c + 1\<rparr>"
      by (simp add: createRelationship_four[OF w t] map_add_def nm)
  qed
  have q6: "map_of (relationships (snd (createRelationship c ?s))) ?c
        = Some (fst (createRelationship c ?s))"
  proof (cases "is_four (r_type c)")
    case True
    show ?thesis by (simp add: createRelationship_four[OF w True] map_add_def nm)
  next
    case False
    show ?thesis by (simp add: createRelationship_other[OF w False] map_add_def nm)
  qed
  have q7: "currentRelationshipId (snd (createRelationship c ?s))
        = ?c + int (length (new_relationship_ids c ?s))"
    unfolding new_relationship_ids_eq[OF w] createRelationship_counter[OF w] by simp
  show ?thesis
    by (intro conjI c0[THEN conjunct1] c0[THEN conjunct2] p1 p2 p3 p4 r1 r2 r3 r4 d1 k1 e1 d2 k2 e2
        q1 q2 q3 q4 q5 q6 q7)
qed

theorem ids_auto_increment_witness:
  "p_id (fst (createPerson \<lparr>name = ''Ann'', gender = None, birthDate = None, birthPlace = None, deathDate = None, notes = None\<rparr>
       (run [CreatePerson \<lparr>name = ''Bob'', gender = None, birthDate = None, birthPlace = None, deathDate = None, notes = None\<rparr>,
             CreateRelationship \<lparr>r_type = ''parent'', personId = 1, relatedPersonId = 2\<rparr>,
             DeletePerson 1] MemStorage_new))) = 2
   \<and> new_relationship_ids \<lparr>r_type = ''spouse'', personId = 1, relatedPersonId = 3\<rparr>
       (run [CreatePerson \<lparr>name = ''Bob'', gender = None, birthDate = None, birthPlace = None, deathDate = None, notes = None\<rparr>,
             CreateRelationship \<lparr>r_type = ''parent'', personId = 1, relatedPersonId = 2\<rparr>,
             DeletePerson 1] MemStorage_new) = [3, 4]
   \<and> new_relationship_ids \<lparr>r_type = ''cousin'', personId = 1, relatedPersonId = 2\<rparr>
       (run [DeleteRelationship 3]
          (snd (createRelationship \<lparr>r_type = ''spouse'', personId = 1, relatedPersonId = 3\<rparr>
             (run [CreatePerson \<lparr>name = ''Bob'', gender = None, birthDate = None, birthPlace = None, deathDate = None, notes = None\<rparr>,
                   CreateRelationship \<lparr>r_type = ''parent'', personId = 1, relatedPersonId = 2\<rparr>,
                   DeletePerson 1] MemStorage_new)))) = [5]
   \<and> map_of (relationships (snd (createRelationship \<lparr>r_type = ''spouse'', personId = 1, relatedPersonId = 3\<rparr>
        (run [CreatePerson \<lparr>name = ''Bob'', gender = None, birthDate = None, birthPlace = None, deathDate = None, notes = None\<rparr>,
              CreateRelationship \<lparr>r_type = ''parent'', personId = 1, relatedPersonId = 2\<rparr>,
              DeletePerson 1] MemStorage_new)))) 4
      = Some \<lparr>r_type = ''spouse'', personId = 3, relatedPersonId = 1, r_id = 4\<rparr>"
  using ids_auto_increment[of
      "\<lparr>name = ''Ann'', gender = None, birthDate = None, birthPlace = None, deathDate = None, notes = None\<rparr>"
      "[CreatePerson \<lparr>name = ''Bob'', gender = None, birthDate = None, birthPlace = None, deathDate = None, notes = None\<rparr>,
             CreateRelationship \<lparr>r_type = ''parent'', personId = 1, relatedPersonId = 2\<rparr>,
             DeletePerson 1]"
      "\<lparr>name = ''Cat'', gender = None, birthDate = None, birthPlace = None, deathDate = None, notes = None\<rparr>"
      "[DeleteRelationship 3]"
      "\<lparr>r_type = ''spouse'', personId = 1, relatedPersonId = 3\<rparr>"
      "\<lparr>r_type = ''cousin'', personId = 1, relatedPersonId = 2\<rparr>"]
  by (simp add: store_eval new_relationship_ids_def)

text \<open>
  C8. For every store, id and replacement record: when no person is stored under the id,
  \<open>updatePerson\<close> returns nothing and the store is unchanged; otherwise it returns the
  record made of the replacement's fields and the id (nothing of the old record), stores
  it under the id at the same place of the map, and changes no other person, no
  relationship and no counter.
\<close>

theorem updatePerson_full_replace:
  "(map_of (persons s) i = None \<longrightarrow> updatePerson i p s = (None, s))
   \<and> (map_of (persons s) i \<noteq> None \<longrightarrow>
        fst (updatePerson i p s)
          = Some \<lparr>name = name p, gender = gender p, birthDate = birthDate p,
                  birthPlace = birthPlace p, deathDate = deathDate p, notes = notes p, p_id = i\<rparr>
      \<and> map_of (persons (snd (updatePerson i p s))) i = fst (updatePerson i p s)
      \<and> (\<forall>j. j \<noteq> i \<longrightarrow> map_of (persons (snd (updatePerson i p s))) j = map_of (persons s) j)
      \<and> map fst (persons (snd (updatePerson i p s))) = map fst (persons s)
      \<and> relationships (snd (updatePerson i p s)) = relationships s
      \<and> currentPersonId (snd (updatePerson i p s)) = currentPersonId s
      \<and> currentRelationshipId (snd (updatePerson i p s)) = currentRelationshipId s)"
proof -
  have e: "person_with_id p i
      = \<lparr>name = name p, gender = gender p, birthDate = birthDate p,
         birthPlace = birthPlace p, deathDate = deathDate p, notes = notes p, p_id = i\<rparr>"
    by (simp add: person_with_id_def InsertPerson.defs Person.defs)
  have k: "map_of (persons s) i = Some q \<Longrightarrow> i \<in> fst ` set (persons s)" for q
    by (metis domI dom_map_of_conv_image_fst)
  show ?thesis
    by (auto simp: updatePerson_def Let_def e update_conv' update_keys dest: k)
qed

theorem updatePerson_full_replace_witness:
  "map_of (persons (run [CreatePerson \<lparr>name = ''Ann'', gender = Some ''female'', birthDate = Some ''1950-01-01'', birthPlace = None, deathDate = None, notes = Some ''x''\<rparr>] MemStorage_new)) 1 \<noteq> None
   \<and> map_of (persons (run [CreatePerson \<lparr>name = ''Ann'', gender = Some ''female'', birthDate = Some ''1950-01-01'', birthPlace = None, deathDate = None, notes = Some ''x''\<rparr>] MemStorage_new)) 2 = None
   \<and> updatePerson 1 \<lparr>name = ''Bea'', gender = None, birthDate = None, birthPlace = Some ''Oslo'', deathDate = None, notes = None\<rparr>
       (run [CreatePerson \<lparr>name = ''Ann'', gender = Some ''female'', birthDate = Some ''1950-01-01'', birthPlace = None, deathDate = None, notes = Some ''x''\<rparr>] MemStorage_new)
     = (Some \<lparr>name = ''Bea'', gender = None, birthDate = None, birthPlace = Some ''Oslo'', deathDate = None, notes = None, p_id = 1\<rparr>,
        \<lparr>persons = [(1, \<lparr>name = ''Bea'', gender = None, birthDate = None, birthPlace = Some ''Oslo'', deathDate = None, notes = None, p_id = 1\<rparr>)],
         relationships = [], currentPersonId = 2, currentRelationshipId = 1\<rparr>)
   \<and> fst (updatePerson 2 \<lparr>name = ''Bea'', gender = None, birthDate = None, birthPlace = Some ''Oslo'', deathDate = None, notes = None\<rparr>
       (run [CreatePerson \<lparr>name = ''Ann'', gender = Some ''female'', birthDate = Some ''1950-01-01'', birthPlace = None, deathDate = None, notes = Some ''x''\<rparr>] MemStorage_new))
     = None"
  using updatePerson_full_replace[of
      "run [CreatePerson \<lparr>name = ''Ann'', gender = Some ''female'', birthDate = Some ''1950-01-01'', birthPlace = None, deathDate = None, notes = Some ''x''\<rparr>] MemStorage_new"
      1 "\<lparr>name = ''Bea'', gender = None, birthDate = None, birthPlace = Some ''Oslo'', deathDate = None, notes = None\<rparr>"]
    updatePerson_full_replace[of
      "run [CreatePerson \<lparr>name = ''Ann'', gender = Some ''female'', birthDate = Some ''1950-01-01'', birthPlace = None, deathDate = None, notes = Some ''x''\<rparr>] MemStorage_new"
      2 "\<lparr>name = ''Bea'', gender = None, birthDate = None, birthPlace = Some ''Oslo'', deathDate = None, notes = None\<rparr>"]
  by (simp add: store_eval)

section \<open>The tree builder: proofs\<close>

lemma p_id_new_tree_person [simp]: "p_id (new_tree_person p) = p_id p"
  by (simp add: new_tree_person_def Person.defs FamilyTreePerson.defs)

lemma truncate_new_tree_person [simp]: "Person.truncate (new_tree_person p) = p"
  by (simp add: new_tree_person_def Person.defs FamilyTreePerson.defs)

lemma arrays_new_tree_person [simp]:
  "children (new_tree_person p) = []" "parents (new_tree_person p) = []"
  "spouses (new_tree_person p) = []" "siblings (new_tree_person p) = []"
  by (simp_all add: new_tree_person_def Person.defs FamilyTreePerson.defs)

lemma add_person_apply:
  "add_person p m k = (if k = p_id p then Some (new_tree_person p) else m k)"
  by (simp add: add_person_def)

lemma dom_add_person: "dom (add_person p m) = insert (p_id p) (dom m)"
  by (simp add: add_person_def)

lemma fold_set_untouched:
  "k \<notin> p_id ` set ps \<Longrightarrow> fold add_person ps m0 k = m0 k"
  by (induction ps arbitrary: m0) (auto simp: add_person_apply)

lemma fold_set_dom:
  "dom (fold add_person ps m0) = dom m0 \<union> p_id ` set ps"
  by (induction ps arbitrary: m0) (auto simp: dom_add_person)

lemma fold_set_cases:
  "fold add_person ps m0 k = Some n \<Longrightarrow>
     m0 k = Some n \<or> (\<exists>p\<in>set ps. p_id p = k \<and> n = new_tree_person p)"
proof (induction ps arbitrary: m0)
  case Nil
  then show ?case by simp
next
  case (Cons a ps)
  from Cons.IH[of "add_person a m0"] Cons.prems
  show ?case by (auto simp: add_person_apply split: if_splits)
qed

lemma fold_set_distinct:
  "distinct (map p_id ps) \<Longrightarrow> p \<in> set ps \<Longrightarrow>
     fold add_person ps m0 (p_id p) = Some (new_tree_person p)"
proof (induction ps arbitrary: m0)
  case Nil
  then show ?case by simp
next
  case (Cons a ps)
  show ?case
  proof (cases "p = a")
    case True
    with Cons.prems(1) have "p_id p \<notin> p_id ` set ps" by auto
    then have "fold add_person ps (add_person a m0) (p_id p) = add_person a m0 (p_id p)"
      by (rule fold_set_untouched)
    moreover have "add_person a m0 (p_id a) = Some (new_tree_person a)"
      by (simp add: add_person_def)
    ultimately show ?thesis using True by simp
  next
    case False
    with Cons show ?thesis by simp
  qed
qed

lemma dom_make_personsMap: "dom (make_personsMap ps) = p_id ` set ps"
  by (simp add: make_personsMap_def fold_set_dom)

lemma make_personsMap_Some:
  "make_personsMap ps k = Some n \<Longrightarrow> \<exists>p\<in>set ps. p_id p = k \<and> n = new_tree_person p"
  unfolding make_personsMap_def by (drule fold_set_cases) simp

lemma make_personsMap_distinct:
  "distinct (map p_id ps) \<Longrightarrow> p \<in> set ps \<Longrightarrow> make_personsMap ps (p_id p) = Some (new_tree_person p)"
  unfolding make_personsMap_def by (rule fold_set_distinct)

lemma dom_connect: "dom (connect r m) = dom m"
  by (auto simp: connect_def split: option.splits if_splits)

lemma dom_fold_connect: "dom (fold connect rels m) = dom m"
  by (induction rels arbitrary: m) (simp_all add: dom_connect)

lemma related_Nil [simp]: "related t ids [] a = []"
  by (simp add: related_def)

lemma related_Cons:
  "related t ids (r # rels) a =
     (if r_type r = t \<and> personId r = a \<and> relatedPersonId r \<in> ids then [relatedPersonId r] else [])
     @ related t ids rels a"
  by (simp add: related_def)

lemma connect_node:
  assumes "m a = Some n0"
  shows "\<exists>n. connect r m a = Some n
     \<and> Person.truncate n = Person.truncate n0
     \<and> children n = children n0 @ related ''parent'' (dom m) [r] a
     \<and> parents n = parents n0 @ related ''child'' (dom m) [r] a
     \<and> spouses n = spouses n0 @ related ''spouse'' (dom m) [r] a
     \<and> siblings n = siblings n0 @ related ''sibling'' (dom m) [r] a"
  using assms
  by (auto simp: connect_def related_def Person.defs split: option.splits)

lemma fold_connect_node:
  assumes "m a = Some n0"
  shows "\<exists>n. fold connect rels m a = Some n
     \<and> Person.truncate n = Person.truncate n0
     \<and> children n = children n0 @ related ''parent'' (dom m) rels a
     \<and> parents n = parents n0 @ related ''child'' (dom m) rels a
     \<and> spouses n = spouses n0 @ related ''spouse'' (dom m) rels a
     \<and> siblings n = siblings n0 @ related ''sibling'' (dom m) rels a"
  using assms
proof (induction rels arbitrary: m n0)
  case Nil
  then show ?case by simp
next
  case (Cons r rels)
  from connect_node[of m a n0 r, OF Cons.prems] obtain n1 where n1: "connect r m a = Some n1"
    "Person.truncate n1 = Person.truncate n0"
    "children n1 = children n0 @ related ''parent'' (dom m) [r] a"
    "parents n1 = parents n0 @ related ''child'' (dom m) [r] a"
    "spouses n1 = spouses n0 @ related ''spouse'' (dom m) [r] a"
    "siblings n1 = siblings n0 @ related ''sibling'' (dom m) [r] a"
    by blast
  from Cons.IH[of "connect r m" n1, OF n1(1)] obtain n where n: "fold connect rels (connect r m) a = Some n"
    "Person.truncate n = Person.truncate n1"
    "children n = children n1 @ related ''parent'' (dom m) rels a"
    "parents n = parents n1 @ related ''child'' (dom m) rels a"
    "spouses n = spouses n1 @ related ''spouse'' (dom m) rels a"
    "siblings n = siblings n1 @ related ''sibling'' (dom m) rels a"
    unfolding dom_connect by blast
  have c: "related t (dom m) (r # rels) a = related t (dom m) [r] a @ related t (dom m) rels a" for t
    by (simp add: related_def)
  show ?case using n n1 unfolding c by simp
qed

lemma insort_key_agree:
  "f x = g x \<Longrightarrow> (\<And>y. y \<in> set ys \<Longrightarrow> f y = g y) \<Longrightarrow> insort_key f x ys = insort_key g x ys"
  by (induction ys) auto

lemma sort_key_agree:
  "(\<And>x. x \<in> set xs \<Longrightarrow> f x = g x) \<Longrightarrow> sort_key f xs = sort_key g xs"
proof (induction xs)
  case Nil
  then show ?case by simp
next
  case (Cons a xs)
  then have "sort_key f xs = sort_key g xs" by simp
  moreover have "insort_key f a (sort_key g xs) = insort_key g a (sort_key g xs)"
    by (rule insort_key_agree) (simp_all add: Cons.prems)
  ultimately show ?case by simp
qed

lemma map_insort_key: "map f (insort_key f x xs) = insort (f x) (map f xs)"
  by (induction xs) auto

lemma map_sort_key: "map f (sort_key f xs) = sort (map f xs)"
  by (induction xs) (simp_all add: map_insort_key)

lemma p_id_truncate: "p_id (Person.truncate n) = p_id n"
  by (simp add: Person.defs)

lemma set_related: "set (related t ids rels a) \<subseteq> ids"
  by (auto simp: related_def)

lemma buildFamilyTree_nonempty:
  "data_persons d \<noteq> [] \<Longrightarrow>
     buildFamilyTree d =
       (fold connect (data_relationships d) (make_personsMap (data_persons d)),
        sort_key (id_of (fold connect (data_relationships d) (make_personsMap (data_persons d))))
          (filter (\<lambda>i. \<not> has_parent (data_relationships d) i) (map p_id (data_persons d))))"
proof -
  assume ne: "data_persons d \<noteq> []"
  have "i \<notin> set (map personId (filter (\<lambda>r. r_type r = ''child'') (data_relationships d)))
      \<longleftrightarrow> \<not> has_parent (data_relationships d) i" for i
    unfolding has_parent_def list_ex_iff by (simp add: image_iff) blast
  then have f: "filter (\<lambda>p. p_id p \<notin> set (map personId (filter (\<lambda>r. r_type r = ''child'') (data_relationships d))))
          (data_persons d)
      = filter ((\<lambda>i. \<not> has_parent (data_relationships d) i) \<circ> p_id) (data_persons d)"
    by (intro filter_cong[OF refl]) (simp only: comp_def)
  show ?thesis unfolding buildFamilyTree_def Let_def f using ne by (simp add: filter_map)
qed

lemma heap_node:
  assumes "fold connect rels (make_personsMap ps) a = Some n"
  shows "\<exists>p\<in>set ps. p_id p = a \<and> Person.truncate n = p
     \<and> children n = related ''parent'' (p_id ` set ps) rels a
     \<and> parents n = related ''child'' (p_id ` set ps) rels a
     \<and> spouses n = related ''spouse'' (p_id ` set ps) rels a
     \<and> siblings n = related ''sibling'' (p_id ` set ps) rels a"
proof -
  from assms have "a \<in> dom (fold connect rels (make_personsMap ps))" by blast
  then have "a \<in> dom (make_personsMap ps)" by (simp only: dom_fold_connect)
  then obtain n0 where n0: "make_personsMap ps a = Some n0" by blast
  from make_personsMap_Some[OF n0] obtain p where p: "p \<in> set ps" "p_id p = a" "n0 = new_tree_person p"
    by blast
  from fold_connect_node[of "make_personsMap ps" a n0 rels, OF n0] assms
  have "Person.truncate n = Person.truncate n0
     \<and> children n = children n0 @ related ''parent'' (p_id ` set ps) rels a
     \<and> parents n = parents n0 @ related ''child'' (p_id ` set ps) rels a
     \<and> spouses n = spouses n0 @ related ''spouse'' (p_id ` set ps) rels a
     \<and> siblings n = siblings n0 @ related ''sibling'' (p_id ` set ps) rels a"
    by (auto simp: dom_make_personsMap)
  with p show ?thesis by auto
qed

lemma heap_dom: "dom (fold connect rels (make_personsMap ps)) = p_id ` set ps"
  by (simp add: dom_fold_connect dom_make_personsMap)

lemma heap_distinct:
  assumes "distinct (map p_id ps)" "p \<in> set ps"
  shows "map_option Person.truncate (fold connect rels (make_personsMap ps) (p_id p)) = Some p"
proof -
  from make_personsMap_distinct[OF assms] have n0: "make_personsMap ps (p_id p) = Some (new_tree_person p)" .
  from fold_connect_node[of "make_personsMap ps" "p_id p" "new_tree_person p" rels, OF n0]
  show ?thesis by auto
qed

text \<open>
  C6. For every input, the store of objects that \<open>buildFamilyTree\<close> builds has one object
  per person id of the list, and the object for person \<open>a\<close> has in \<open>children\<close> exactly the
  \<open>relatedPersonId\<close> of the relationships of type parent from \<open>a\<close>, in \<open>parents\<close> those of
  type child, in \<open>spouses\<close> those of type spouse and in \<open>siblings\<close> those of type sibling,
  in list order and with multiplicity, counting only relationships whose two ends are in
  the persons list; every reference in the arrays is to an object of the store.
\<close>

theorem family_tree_arrays:
  "dom (fst (buildFamilyTree d)) = set (map p_id (data_persons d))
   \<and> (\<forall>a n. fst (buildFamilyTree d) a = Some n \<longrightarrow>
         p_id n = a \<and> Person.truncate n \<in> set (data_persons d)
       \<and> children n = related ''parent'' (set (map p_id (data_persons d))) (data_relationships d) a
       \<and> parents n = related ''child'' (set (map p_id (data_persons d))) (data_relationships d) a
       \<and> spouses n = related ''spouse'' (set (map p_id (data_persons d))) (data_relationships d) a
       \<and> siblings n = related ''sibling'' (set (map p_id (data_persons d))) (data_relationships d) a
       \<and> set (children n @ parents n @ spouses n @ siblings n) \<subseteq> dom (fst (buildFamilyTree d)))"
proof (cases "data_persons d = []")
  case True
  then show ?thesis by (simp add: buildFamilyTree_def)
next
  case False
  let ?m = "fold connect (data_relationships d) (make_personsMap (data_persons d))"
  have m: "fst (buildFamilyTree d) = ?m" by (simp add: buildFamilyTree_nonempty[OF False])
  have dm: "dom ?m = set (map p_id (data_persons d))" by (simp add: heap_dom)
  have "p_id n = a \<and> Person.truncate n \<in> set (data_persons d)
       \<and> children n = related ''parent'' (set (map p_id (data_persons d))) (data_relationships d) a
       \<and> parents n = related ''child'' (set (map p_id (data_persons d))) (data_relationships d) a
       \<and> spouses n = related ''spouse'' (set (map p_id (data_persons d))) (data_relationships d) a
       \<and> siblings n = related ''sibling'' (set (map p_id (data_persons d))) (data_relationships d) a
       \<and> set (children n @ parents n @ spouses n @ siblings n) \<subseteq> dom ?m"
    if "?m a = Some n" for a n
  proof -
    from heap_node[OF that] obtain p where p: "p \<in> set (data_persons d)" "p_id p = a"
      "Person.truncate n = p"
      "children n = related ''parent'' (p_id ` set (data_persons d)) (data_relationships d) a"
      "parents n = related ''child'' (p_id ` set (data_persons d)) (data_relationships d) a"
      "spouses n = related ''spouse'' (p_id ` set (data_persons d)) (data_relationships d) a"
      "siblings n = related ''sibling'' (p_id ` set (data_persons d)) (data_relationships d) a"
      by blast
    have "p_id n = a" using p(2,3) p_id_truncate[of n] by simp
    moreover have "set (children n @ parents n @ spouses n @ siblings n) \<subseteq> dom ?m"
      unfolding dm p(4-7) using set_related[of _ "p_id ` set (data_persons d)" "data_relationships d" a]
      by simp
    ultimately show ?thesis using p by simp
  qed
  then have "\<forall>a n. ?m a = Some n \<longrightarrow>
         p_id n = a \<and> Person.truncate n \<in> set (data_persons d)
       \<and> children n = related ''parent'' (set (map p_id (data_persons d))) (data_relationships d) a
       \<and> parents n = related ''child'' (set (map p_id (data_persons d))) (data_relationships d) a
       \<and> spouses n = related ''spouse'' (set (map p_id (data_persons d))) (data_relationships d) a
       \<and> siblings n = related ''sibling'' (set (map p_id (data_persons d))) (data_relationships d) a
       \<and> set (children n @ parents n @ spouses n @ siblings n) \<subseteq> dom ?m"
    by blast
  with dm show ?thesis unfolding m by (rule conjI)
qed

text \<open>
  With a repeated id the roots are not the parentless input persons: \<open>personsMap\<close> keeps
  one object per id, the one made for the last person of that id, and every root
  candidate of that id is replaced by it.
\<close>

theorem family_tree_roots_counterexample:
  "snd (buildFamilyTree repeated_id_family) = [1, 1, 2]
   \<and> root_persons repeated_id_family
       = [Some (example_person 1 ''New''), Some (example_person 1 ''New''),
          Some (example_person 2 ''Bea'')]
   \<and> parentless_persons repeated_id_family
       = [example_person 1 ''Old'', example_person 1 ''New'', example_person 2 ''Bea'']
   \<and> root_persons repeated_id_family \<noteq> map Some (parentless_persons repeated_id_family)"
  by code_simp

text \<open>
  C5 (as amended). For every input whose persons have pairwise distinct ids, the persons
  carried by the roots that \<open>buildFamilyTree\<close> returns are exactly the input persons that
  are the \<open>personId\<close> of no relationship of type child, sorted in ascending order of id.
  For every input, distinct ids or not, the root references are the ids of those
  persons in ascending order, each root is an object of the store carrying an input
  person of that id, and an empty persons list gives the empty list.
\<close>

theorem family_tree_roots:
  "snd (buildFamilyTree d)
     = sort (filter (\<lambda>i. \<not> has_parent (data_relationships d) i) (map p_id (data_persons d)))
   \<and> sorted (snd (buildFamilyTree d))
   \<and> (\<forall>k\<in>set (snd (buildFamilyTree d)).
        \<exists>n. fst (buildFamilyTree d) k = Some n \<and> p_id n = k \<and> Person.truncate n \<in> set (data_persons d))
   \<and> (distinct (map p_id (data_persons d)) \<longrightarrow>
        root_persons d = map Some (parentless_persons d))
   \<and> (data_persons d = [] \<longrightarrow> snd (buildFamilyTree d) = [])"
proof (cases "data_persons d = []")
  case True
  then show ?thesis
    by (simp add: buildFamilyTree_def root_persons_def parentless_persons_def)
next
  case False
  let ?m = "fold connect (data_relationships d) (make_personsMap (data_persons d))"
  let ?ks = "filter (\<lambda>i. \<not> has_parent (data_relationships d) i) (map p_id (data_persons d))"
  let ?xs = "filter (\<lambda>p. \<not> has_parent (data_relationships d) (p_id p)) (data_persons d)"
  have m: "fst (buildFamilyTree d) = ?m" and r0: "snd (buildFamilyTree d) = sort_key (id_of ?m) ?ks"
    by (simp_all add: buildFamilyTree_nonempty[OF False])
  have node: "\<exists>n. ?m k = Some n \<and> p_id n = k \<and> Person.truncate n \<in> set (data_persons d)"
    if "k \<in> set ?ks" for k
  proof -
    from that have "k \<in> dom ?m" by (auto simp: heap_dom)
    then obtain n where n: "?m k = Some n" by blast
    from heap_node[OF n] obtain p where "p \<in> set (data_persons d)" "p_id p = k" "Person.truncate n = p"
      by blast
    then show ?thesis using n p_id_truncate[of n] by simp
  qed
  have "id_of ?m k = k" if "k \<in> set ?ks" for k
    using node[OF that] by (auto simp: id_of_def)
  then have "sort_key (id_of ?m) ?ks = sort_key (\<lambda>k. k) ?ks" by (rule sort_key_agree)
  with r0 have r: "snd (buildFamilyTree d) = sort ?ks" by simp
  have s: "sorted (snd (buildFamilyTree d))" unfolding r by (rule sorted_sort)
  have n': "\<forall>k\<in>set (snd (buildFamilyTree d)).
        \<exists>n. fst (buildFamilyTree d) k = Some n \<and> p_id n = k \<and> Person.truncate n \<in> set (data_persons d)"
    unfolding r m using node by simp
  have dd: "map (\<lambda>k. map_option Person.truncate (?m k)) (sort ?ks) = map Some (sort_key p_id ?xs)"
    if dist: "distinct (map p_id (data_persons d))"
  proof -
    have "?ks = map p_id ?xs" by (simp add: filter_map comp_def)
    then have "sort ?ks = map p_id (sort_key p_id ?xs)" by (simp add: map_sort_key)
    then have "map (\<lambda>k. map_option Person.truncate (?m k)) (sort ?ks)
        = map (\<lambda>p. map_option Person.truncate (?m (p_id p))) (sort_key p_id ?xs)"
      by (simp add: comp_def)
    also have "\<dots> = map Some (sort_key p_id ?xs)"
      by (rule map_cong[OF refl]) (simp add: heap_distinct[OF dist])
    finally show ?thesis .
  qed
  from r s n' dd False show ?thesis
    unfolding root_persons_def parentless_persons_def r m by simp
qed

theorem family_tree_arrays_witness:
  "fst (buildFamilyTree example_family) 1
     = Some \<lparr>name = ''Ann'', gender = None, birthDate = None, birthPlace = None,
             deathDate = None, notes = None, p_id = 1,
             children = [2, 2], parents = [], spouses = [3], siblings = []\<rparr>
   \<and> [2, 2] = related ''parent'' (set (map p_id (data_persons example_family)))
         (data_relationships example_family) 1
   \<and> [3] = related ''spouse'' (set (map p_id (data_persons example_family)))
         (data_relationships example_family) 1
   \<and> fst (buildFamilyTree example_family) 9 = None"
proof -
  have h: "fst (buildFamilyTree example_family) 1
     = Some \<lparr>name = ''Ann'', gender = None, birthDate = None, birthPlace = None,
             deathDate = None, notes = None, p_id = 1,
             children = [2, 2], parents = [], spouses = [3], siblings = []\<rparr>"
    by code_simp
  have n: "fst (buildFamilyTree example_family) 9 = None"
    by code_simp
  note t = family_tree_arrays[of example_family, THEN conjunct2, rule_format, OF h]
  have c: "[2, 2] = related ''parent'' (set (map p_id (data_persons example_family)))
         (data_relationships example_family) 1"
    using t[THEN conjunct2, THEN conjunct2, THEN conjunct1] by simp
  have s: "[3] = related ''spouse'' (set (map p_id (data_persons example_family)))
         (data_relationships example_family) 1"
    using t[THEN conjunct2, THEN conjunct2, THEN conjunct2, THEN conjunct2, THEN conjunct1] by simp
  show ?thesis by (intro conjI h c s n)
qed

theorem family_tree_roots_witness:
  "distinct (map p_id (data_persons example_family))
   \<and> snd (buildFamilyTree example_family) = [1, 3]
   \<and> root_persons example_family
      = [Some (example_person 1 ''Ann''), Some (example_person 3 ''Carl'')]
   \<and> data_persons \<lparr>data_persons = [], data_relationships = [example_rel 1 ''parent'' 1 2]\<rparr> = []
   \<and> snd (buildFamilyTree \<lparr>data_persons = [], data_relationships = [example_rel 1 ''parent'' 1 2]\<rparr>) = []"
proof -
  have d: "distinct (map p_id (data_persons example_family))"
    by code_simp
  have e: "data_persons \<lparr>data_persons = [], data_relationships = [example_rel 1 ''parent'' 1 2]\<rparr> = []"
    by simp
  have s: "parentless_persons example_family = [example_person 1 ''Ann'', example_person 3 ''Carl'']"
    by code_simp
  have k: "sort (filter (\<lambda>i. \<not> has_parent (data_relationships example_family) i)
            (map p_id (data_persons example_family))) = [1, 3]"
    by code_simp
  note t = family_tree_roots[of example_family]
  note t0 = family_tree_roots[of "\<lparr>data_persons = [], data_relationships = [example_rel 1 ''parent'' 1 2]\<rparr>"]
  have r: "snd (buildFamilyTree example_family) = [1, 3]"
    using t[THEN conjunct1] unfolding k .
  have m: "root_persons example_family
      = [Some (example_person 1 ''Ann''), Some (example_person 3 ''Carl'')]"
    using t[THEN conjunct2, THEN conjunct2, THEN conjunct2, THEN conjunct1, rule_format, OF d]
    unfolding s by simp
  have z: "snd (buildFamilyTree \<lparr>data_persons = [], data_relationships = [example_rel 1 ''parent'' 1 2]\<rparr>) = []"
    using t0[THEN conjunct2, THEN conjunct2, THEN conjunct2, THEN conjunct2, rule_format, OF e] .
  show ?thesis by (intro conjI d r m e z)
qed

section \<open>The layout engine: proofs\<close>

lemma inside_unlinked [simp]: "inside d (unlinked n) = inside d n"
  by (simp add: inside_def unlinked_def)

lemma person_unlinked [simp]: "n_person (unlinked n) = n_person n"
  by (simp add: unlinked_def)

lemma unlinked_links [simp]:
  "unlinked (n\<lparr>n_spouse := a\<rparr>) = unlinked n"
  "unlinked (n\<lparr>n_children := b\<rparr>) = unlinked n"
  by (simp_all add: unlinked_def)

lemma inside_mono:
  "inside d n \<Longrightarrow> dim_width d \<le> dim_width d' \<Longrightarrow> dim_height d \<le> dim_height d' \<Longrightarrow> inside d' n"
  by (auto simp: inside_def)

lemma grows_refl: "grows s s"
  by (simp add: grows_def)

lemma grows_trans:
  assumes "grows a b" "grows b c"
  shows "grows a c"
proof -
  from assms(1) obtain n1 where n1: "map unlinked (cur_nodes b) = map unlinked (cur_nodes a) @ n1"
    "\<forall>n\<in>set n1. inside (bounds b) n" and m1: "maxWidth a \<le> maxWidth b" "maxHeight a \<le> maxHeight b"
    unfolding grows_def by blast
  from assms(2) obtain n2 where n2: "map unlinked (cur_nodes c) = map unlinked (cur_nodes b) @ n2"
    "\<forall>n\<in>set n2. inside (bounds c) n" and m2: "maxWidth b \<le> maxWidth c" "maxHeight b \<le> maxHeight c"
    unfolding grows_def by blast
  have "\<forall>n\<in>set n1. inside (bounds c) n"
    using n1(2) m2 by (auto intro: inside_mono simp: bounds_def)
  with n2(2) have "\<forall>n\<in>set (n1 @ n2). inside (bounds c) n" by auto
  moreover have "map unlinked (cur_nodes c) = map unlinked (cur_nodes a) @ (n1 @ n2)"
    using n1(1) n2(1) by simp
  ultimately show ?thesis unfolding grows_def using m1 m2 by (metis order_trans)
qed

lemma map_unlinked_update:
  assumes "\<And>n. unlinked (f n) = unlinked n"
  shows "map unlinked (xs[i := f (xs ! i)]) = map unlinked xs"
proof (cases "i < length xs")
  case True
  then show ?thesis by (simp add: map_update assms list_update_same_conv)
next
  case False
  then have "xs[i := f (xs ! i)] = xs" by (simp add: list_update_beyond)
  then show ?thesis by simp
qed

lemma update_node_links:
  assumes "\<And>n. unlinked (f n) = unlinked n"
  shows "map unlinked (cur_nodes (update_node i f s)) = map unlinked (cur_nodes s)"
    and "maxWidth (update_node i f s) = maxWidth s"
    and "maxHeight (update_node i f s) = maxHeight s"
  by (simp_all add: update_node_def map_unlinked_update[OF assms])

lemma push_connector_frame [simp]:
  "cur_nodes (push_connector c s) = cur_nodes s"
  "maxWidth (push_connector c s) = maxWidth s"
  "maxHeight (push_connector c s) = maxHeight s"
  by (simp_all add: push_connector_def)

lemma push_node_frame [simp]:
  "cur_nodes (push_node n s) = cur_nodes s @ [n]"
  "maxWidth (push_node n s) = maxWidth s"
  "maxHeight (push_node n s) = maxHeight s"
  by (simp_all add: push_node_def)

lemma children_connectors_frame [simp]:
  "cur_nodes (children_connectors i len s) = cur_nodes s"
  "maxWidth (children_connectors i len s) = maxWidth s"
  "maxHeight (children_connectors i len s) = maxHeight s"
  by (simp_all add: children_connectors_def Let_def)

lemma after_child_grows: "grows s (after_child node_i parentY childX childNode s)"
proof -
  have "map unlinked (cur_nodes (after_child node_i parentY childX childNode s)) = map unlinked (cur_nodes s)"
    by (simp add: after_child_def Let_def update_node_links)
  moreover have "maxWidth s \<le> maxWidth (after_child node_i parentY childX childNode s)"
    "maxHeight s \<le> maxHeight (after_child node_i parentY childX childNode s)"
    by (simp_all add: after_child_def Let_def update_node_links)
  ultimately show ?thesis by (simp add: grows_def)
qed

lemma forEach_grows:
  assumes "\<And>i c st st'. f i c st = Some st' \<Longrightarrow> grows st st'"
  shows "forEach_indexed f k cs s = Some s' \<Longrightarrow> grows s s'"
proof (induction cs arbitrary: k s)
  case Nil
  then show ?case by (simp add: grows_refl)
next
  case (Cons c cs)
  from Cons.prems obtain s1 where s1: "f k c s = Some s1" "forEach_indexed f (Suc k) cs s1 = Some s'"
    by (auto split: option.splits)
  from assms[OF s1(1)] Cons.IH[OF s1(2)] show ?case by (rule grows_trans)
qed

lemma processNode_Suc:
  "processNode (Suc fuel) h person level xOffset s =
     (case visit_children fuel h person level (length (cur_nodes s)) (placed h person level xOffset s) of
        None \<Rightarrow> None
      | Some s3 \<Rightarrow>
          Some (length (cur_nodes s),
                s3\<lparr>maxWidth := max (maxWidth s3) (xOffset + total_width h person),
                   maxHeight := max (maxHeight s3) (level * LEVEL_HEIGHT + NODE_HEIGHT)\<rparr>))"
  unfolding processNode.simps visit_children_def visit_child_def [abs_def] placed_def
    total_width_def valid_children_def Let_def
  by (rule refl)

lemma placed_state:
  "map unlinked (cur_nodes (placed h person level xOffset s))
     = map unlinked (cur_nodes s) @ front_nodes h person level xOffset"
  "maxWidth (placed h person level xOffset s) = maxWidth s"
  "maxHeight (placed h person level xOffset s) = maxHeight s"
  by (simp_all add: placed_def process_spouse_def front_nodes_def Let_def update_node_def unlinked_def
      split: list.splits)

lemma front_nodes_inside:
  assumes "0 \<le> level" "0 \<le> xOffset"
    and "xOffset + total_width h person \<le> dim_width d"
    and "level * LEVEL_HEIGHT + NODE_HEIGHT \<le> dim_height d"
  shows "\<forall>n\<in>set (front_nodes h person level xOffset). inside d n"
  using assms
  by (auto simp: front_nodes_def total_width_def inside_def NODE_WIDTH_def NODE_HEIGHT_def
      LEVEL_HEIGHT_def SPOUSE_SPACING_def split: list.splits if_splits)

lemma childXOffset_nonneg: "0 \<le> childXOffset_of i len s"
  by (simp add: childXOffset_of_def)

lemma visit_children_grows:
  assumes ih: "\<And>child lv x st i st'. processNode fuel h child lv x st = Some (i, st') \<Longrightarrow>
                 0 \<le> lv \<Longrightarrow> 0 \<le> x \<Longrightarrow> grows st st'"
    and lv: "0 \<le> level"
    and r: "visit_children fuel h person level node_i s2 = Some s3"
  shows "grows s2 s3"
proof (cases "valid_children h person s2 = []")
  case True
  with r show ?thesis by (simp add: visit_children_def grows_refl)
next
  case False
  let ?len = "int (length (valid_children h person s2))"
  let ?f = "visit_child fuel h node_i level (childXOffset_of node_i ?len s2)
              (n_y (cur_nodes s2 ! node_i) + n_height (cur_nodes s2 ! node_i))"
  from r False have l: "forEach_indexed ?f 0 (valid_children h person s2)
      (children_connectors node_i ?len s2) = Some s3"
    by (simp add: visit_children_def Let_def)
  have body: "grows st st'" if "?f i c st = Some st'" for i c st st'
  proof -
    let ?x = "childXOffset_of node_i ?len s2 + int i * (NODE_WIDTH + SIBLING_SPACING)"
    from that obtain ci st1 where p: "processNode fuel h c (level + 1) ?x st = Some (ci, st1)"
      and e: "st' = after_child node_i (n_y (cur_nodes s2 ! node_i) + n_height (cur_nodes s2 ! node_i)) ?x ci st1"
      by (auto simp: visit_child_def Let_def split: option.splits)
    have "0 \<le> ?x" using childXOffset_nonneg[of node_i ?len s2]
      by (simp add: NODE_WIDTH_def SIBLING_SPACING_def)
    with ih[OF p] lv have "grows st st1" by simp
    moreover have "grows st1 st'" unfolding e by (rule after_child_grows)
    ultimately show ?thesis by (rule grows_trans)
  qed
  have "grows (children_connectors node_i ?len s2) s3"
    using body l by (rule forEach_grows)
  then show ?thesis by (simp add: grows_def bounds_def)
qed

lemma processNode_grows:
  "processNode fuel h person level xOffset s = Some (i, s') \<Longrightarrow> 0 \<le> level \<Longrightarrow> 0 \<le> xOffset
     \<Longrightarrow> grows s s'"
proof (induction fuel arbitrary: person level xOffset s i s')
  case 0
  then show ?case by simp
next
  case (Suc fuel)
  let ?s2 = "placed h person level xOffset s"
  from Suc.prems(1) obtain s3 where v: "visit_children fuel h person level (length (cur_nodes s)) ?s2 = Some s3"
    and e: "s' = s3\<lparr>maxWidth := max (maxWidth s3) (xOffset + total_width h person),
                   maxHeight := max (maxHeight s3) (level * LEVEL_HEIGHT + NODE_HEIGHT)\<rparr>"
    unfolding processNode_Suc by (auto split: option.splits)
  have g: "grows ?s2 s3"
    using Suc.IH Suc.prems(2) v by (rule visit_children_grows)
  then obtain new where new: "map unlinked (cur_nodes s3) = map unlinked (cur_nodes ?s2) @ new"
    "\<forall>n\<in>set new. inside (bounds s3) n"
    and m: "maxWidth ?s2 \<le> maxWidth s3" "maxHeight ?s2 \<le> maxHeight s3"
    unfolding grows_def by blast
  have w: "dim_width (bounds s3) \<le> dim_width (bounds s')" "dim_height (bounds s3) \<le> dim_height (bounds s')"
    by (simp_all add: e bounds_def)
  have "\<forall>n\<in>set new. inside (bounds s') n"
    using new(2) w by (blast intro: inside_mono)
  moreover have "\<forall>n\<in>set (front_nodes h person level xOffset). inside (bounds s') n"
    by (rule front_nodes_inside[OF Suc.prems(2,3)]) (simp_all add: e bounds_def)
  moreover have "map unlinked (cur_nodes s')
      = map unlinked (cur_nodes s) @ (front_nodes h person level xOffset @ new)"
    using new(1) by (simp add: e placed_state)
  moreover have "maxWidth s \<le> maxWidth s'" "maxHeight s \<le> maxHeight s'"
    using m by (simp_all add: e placed_state)
  ultimately show ?case unfolding grows_def
    by (intro conjI exI[of _ "front_nodes h person level xOffset @ new"]) auto
qed

lemma layout_roots_grows:
  "layout_roots fuel h rs xPos s = Some s' \<Longrightarrow> 0 \<le> xPos \<Longrightarrow> 0 \<le> maxWidth s \<Longrightarrow> grows s s'"
proof (induction rs arbitrary: xPos s)
  case Nil
  then show ?case by (simp add: grows_refl)
next
  case (Cons r rs)
  from Cons.prems(1) obtain i s1 where p: "processNode fuel h r 0 xPos s = Some (i, s1)"
    and l: "layout_roots fuel h rs (maxWidth s1 + SIBLING_SPACING) s1 = Some s'"
    by (auto split: option.splits)
  have g: "grows s s1" by (rule processNode_grows[OF p]) (simp_all add: Cons.prems(2))
  then have m: "0 \<le> maxWidth s1" using Cons.prems(3) by (simp add: grows_def)
  then have "0 \<le> maxWidth s1 + SIBLING_SPACING" by (simp add: SIBLING_SPACING_def)
  from Cons.IH[OF l this m] have "grows s1 s'" .
  with g show ?case by (rule grows_trans)
qed

lemma layout_inside:
  assumes "layoutFamilyTree fuel h rootPersons = Some L"
  shows "list_all (inside (dimensions L)) (nodes L)"
proof -
  let ?s0 = "\<lparr>cur_nodes = [], cur_connectors = [], maxWidth = 0, maxHeight = 0\<rparr>"
  from assms obtain s where s: "layout_roots fuel h rootPersons 0 ?s0 = Some s"
    and L: "L = \<lparr>nodes = cur_nodes s, connectors = cur_connectors s,
                dimensions = \<lparr>dim_width = maxWidth s, dim_height = maxHeight s\<rparr>\<rparr>"
    by (auto simp: layoutFamilyTree_def split: option.splits)
  from layout_roots_grows[OF s] have "grows ?s0 s" by simp
  then have "\<forall>n\<in>set (map unlinked (cur_nodes s)). inside (bounds s) n"
    by (auto simp: grows_def)
  then have "\<forall>n\<in>set (cur_nodes s). inside (bounds s) n" by simp
  then show ?thesis by (simp add: L list_all_iff bounds_def)
qed

subsection \<open>The layout returns\<close>

lemma placed_ids_unlinked:
  "placed_ids h s = (\<lambda>n. p_id (h (n_person n))) ` set (map unlinked (cur_nodes s))"
  by (simp add: placed_ids_def image_image)

lemma grows_placed_ids:
  assumes "grows s s'"
  shows "placed_ids h s \<subseteq> placed_ids h s'"
proof -
  from assms obtain new where "map unlinked (cur_nodes s') = map unlinked (cur_nodes s) @ new"
    unfolding grows_def by blast
  then have "set (map unlinked (cur_nodes s)) \<subseteq> set (map unlinked (cur_nodes s'))" by simp
  then show ?thesis unfolding placed_ids_unlinked by (rule image_mono)
qed

lemma placed_ids_placed:
  "placed_ids h s \<subseteq> placed_ids h (placed h person level xOffset s)"
  "p_id (h person) \<in> placed_ids h (placed h person level xOffset s)"
  unfolding placed_ids_unlinked placed_state by (auto simp: front_nodes_def)

lemma valid_children_fresh:
  "c \<in> set (valid_children h person s) \<Longrightarrow> p_id (h c) \<notin> placed_ids h s"
  by (auto simp: valid_children_def placed_ids_def list_ex_iff)

lemma visit_loop_total:
  assumes ih: "\<And>child lv x st. card (person_ids h - placed_ids h st - {p_id (h child)}) < fuel \<Longrightarrow>
                 0 \<le> lv \<Longrightarrow> 0 \<le> x \<Longrightarrow> processNode fuel h child lv x st \<noteq> None"
    and fin: "finite (person_ids h)"
    and c: "card (person_ids h - A) \<le> fuel"
    and lv: "0 \<le> level" and cx: "0 \<le> childXOffset"
  shows "\<forall>c\<in>set cs. p_id (h c) \<notin> A \<Longrightarrow> A \<subseteq> placed_ids h st \<Longrightarrow>
     forEach_indexed (visit_child fuel h node_i level childXOffset parentY) k cs st \<noteq> None"
proof (induction cs arbitrary: k st)
  case Nil
  then show ?case by simp
next
  case (Cons a cs)
  let ?x = "childXOffset + int k * (NODE_WIDTH + SIBLING_SPACING)"
  have x0: "0 \<le> ?x" using cx by (simp add: NODE_WIDTH_def SIBLING_SPACING_def)
  have "p_id (h a) \<in> person_ids h - A" using Cons.prems(1) by (simp add: person_ids_def)
  then have "card (person_ids h - A - {p_id (h a)}) < card (person_ids h - A)"
    using fin by (intro card_Diff1_less) auto
  moreover have "card (person_ids h - placed_ids h st - {p_id (h a)}) \<le> card (person_ids h - A - {p_id (h a)})"
    using fin Cons.prems(2) by (intro card_mono) auto
  ultimately have "card (person_ids h - placed_ids h st - {p_id (h a)}) < fuel" using c by linarith
  from ih[OF this, of "level + 1" ?x] lv x0 obtain ci st1
    where p: "processNode fuel h a (level + 1) ?x st = Some (ci, st1)" by auto
  have "grows st st1" by (rule processNode_grows[OF p]) (use lv x0 in simp_all)
  moreover have "grows st1 (after_child node_i parentY ?x ci st1)" by (rule after_child_grows)
  ultimately have "grows st (after_child node_i parentY ?x ci st1)" by (rule grows_trans)
  then have "A \<subseteq> placed_ids h (after_child node_i parentY ?x ci st1)"
    using Cons.prems(2) grows_placed_ids by blast
  from Cons.IH[OF _ this] Cons.prems(1)
  have "forEach_indexed (visit_child fuel h node_i level childXOffset parentY) (Suc k) cs
          (after_child node_i parentY ?x ci st1) \<noteq> None" by simp
  moreover have "visit_child fuel h node_i level childXOffset parentY k a st
      = Some (after_child node_i parentY ?x ci st1)"
    using p by (simp add: visit_child_def Let_def)
  ultimately show ?case by simp
qed

lemma processNode_total:
  "finite (person_ids h) \<Longrightarrow> card (person_ids h - placed_ids h s - {p_id (h person)}) < fuel \<Longrightarrow>
     0 \<le> level \<Longrightarrow> 0 \<le> xOffset \<Longrightarrow> processNode fuel h person level xOffset s \<noteq> None"
proof (induction fuel arbitrary: person level xOffset s)
  case 0
  then show ?case by simp
next
  case (Suc fuel)
  let ?s2 = "placed h person level xOffset s"
  let ?A = "placed_ids h ?s2"
  let ?vc = "valid_children h person ?s2"
  let ?len = "int (length ?vc)"
  let ?i = "length (cur_nodes s)"
  have "person_ids h - ?A \<subseteq> person_ids h - placed_ids h s - {p_id (h person)}"
    using placed_ids_placed(1)[of h s person level xOffset]
      placed_ids_placed(2)[of h person level xOffset s] by auto
  then have "card (person_ids h - ?A) \<le> card (person_ids h - placed_ids h s - {p_id (h person)})"
    using Suc.prems(1) by (intro card_mono) auto
  with Suc.prems(2) have c: "card (person_ids h - ?A) \<le> fuel" by simp
  have "visit_children fuel h person level ?i ?s2 \<noteq> None"
  proof (cases "?vc = []")
    case True
    then show ?thesis by (simp add: visit_children_def)
  next
    case False
    have ih: "processNode fuel h child lv x st \<noteq> None"
      if "card (person_ids h - placed_ids h st - {p_id (h child)}) < fuel" "0 \<le> lv" "0 \<le> x"
      for child lv x st
      using Suc.IH[OF Suc.prems(1) that] .
    have "forEach_indexed
            (visit_child fuel h ?i level (childXOffset_of ?i ?len ?s2)
               (n_y (cur_nodes ?s2 ! ?i) + n_height (cur_nodes ?s2 ! ?i)))
            0 ?vc (children_connectors ?i ?len ?s2) \<noteq> None"
    proof (rule visit_loop_total[where A = ?A, OF ih Suc.prems(1) c Suc.prems(3) childXOffset_nonneg])
      show "\<forall>c\<in>set ?vc. p_id (h c) \<notin> ?A" by (auto dest: valid_children_fresh)
      show "?A \<subseteq> placed_ids h (children_connectors ?i ?len ?s2)"
        by (simp add: placed_ids_def)
    qed
    then show ?thesis using False by (simp add: visit_children_def Let_def)
  qed
  then show ?case unfolding processNode_Suc by (auto split: option.splits)
qed

lemma layout_roots_total:
  "finite (person_ids h) \<Longrightarrow> card (person_ids h) < fuel \<Longrightarrow> 0 \<le> xPos \<Longrightarrow> 0 \<le> maxWidth s \<Longrightarrow>
     layout_roots fuel h rs xPos s \<noteq> None"
proof (induction rs arbitrary: xPos s)
  case Nil
  then show ?case by simp
next
  case (Cons r rs)
  have "card (person_ids h - placed_ids h s - {p_id (h r)}) \<le> card (person_ids h)"
    using Cons.prems(1) by (intro card_mono) auto
  with Cons.prems(2) have "card (person_ids h - placed_ids h s - {p_id (h r)}) < fuel" by simp
  from processNode_total[OF Cons.prems(1) this, of 0 xPos] Cons.prems(3)
  obtain i s1 where p: "processNode fuel h r 0 xPos s = Some (i, s1)" by auto
  have "grows s s1" by (rule processNode_grows[OF p]) (use Cons.prems(3) in simp_all)
  then have m: "0 \<le> maxWidth s1" using Cons.prems(4) by (simp add: grows_def)
  then have "0 \<le> maxWidth s1 + SIBLING_SPACING" by (simp add: SIBLING_SPACING_def)
  from Cons.IH[OF Cons.prems(1,2) this m]
  have "layout_roots fuel h rs (maxWidth s1 + SIBLING_SPACING) s1 \<noteq> None" .
  then show ?case using p by simp
qed

lemma layout_total:
  "finite (person_ids h) \<Longrightarrow> card (person_ids h) < fuel \<Longrightarrow> layoutFamilyTree fuel h rootPersons \<noteq> None"
  using layout_roots_total[of h fuel 0 "\<lparr>cur_nodes = [], cur_connectors = [], maxWidth = 0, maxHeight = 0\<rparr>" rootPersons]
  by (auto simp: layoutFamilyTree_def split: option.splits)

subsection \<open>More fuel does not change the layout\<close>

lemma forEach_mono:
  assumes "\<And>i c st st'. f i c st = Some st' \<Longrightarrow> g i c st = Some st'"
  shows "forEach_indexed f k cs s = Some s' \<Longrightarrow> forEach_indexed g k cs s = Some s'"
proof (induction cs arbitrary: k s)
  case Nil
  then show ?case by simp
next
  case (Cons c cs)
  from Cons.prems obtain s1 where s1: "f k c s = Some s1" "forEach_indexed f (Suc k) cs s1 = Some s'"
    by (auto split: option.splits)
  from assms[OF s1(1)] Cons.IH[OF s1(2)] show ?case by simp
qed

lemma processNode_fuel_Suc:
  "processNode fuel h person level xOffset s = Some r \<Longrightarrow>
     processNode (Suc fuel) h person level xOffset s = Some r"
proof (induction fuel arbitrary: person level xOffset s r)
  case 0
  then show ?case by simp
next
  case (Suc fuel)
  let ?s2 = "placed h person level xOffset s"
  let ?i = "length (cur_nodes s)"
  have child: "visit_child (Suc fuel) h ni lv cx py i c st = Some st'"
    if "visit_child fuel h ni lv cx py i c st = Some st'" for ni lv cx py i c st st'
  proof -
    let ?x = "cx + int i * (NODE_WIDTH + SIBLING_SPACING)"
    from that obtain ci st1 where p: "processNode fuel h c (lv + 1) ?x st = Some (ci, st1)"
      and e: "st' = after_child ni py ?x ci st1"
      by (auto simp: visit_child_def Let_def split: option.splits)
    from Suc.IH[OF p] e show ?thesis by (simp add: visit_child_def Let_def)
  qed
  have "visit_children (Suc fuel) h person level ?i ?s2 = Some s3"
    if v: "visit_children fuel h person level ?i ?s2 = Some s3" for s3
  proof (cases "valid_children h person ?s2 = []")
    case True
    with v show ?thesis by (simp add: visit_children_def)
  next
    case False
    with v show ?thesis unfolding visit_children_def Let_def
      by (simp add: forEach_mono[OF child])
  qed
  with Suc.prems show ?case
    unfolding processNode_Suc[of "Suc fuel"] processNode_Suc[of fuel]
    by (auto split: option.splits)
qed

lemma processNode_fuel_le:
  "fuel \<le> fuel' \<Longrightarrow> processNode fuel h person level xOffset s = Some r \<Longrightarrow>
     processNode fuel' h person level xOffset s = Some r"
proof (induction fuel' arbitrary: )
  case 0
  then show ?case by simp
next
  case (Suc fuel')
  show ?case
  proof (cases "fuel = Suc fuel'")
    case True
    with Suc.prems show ?thesis by simp
  next
    case False
    with Suc.prems(1) have "fuel \<le> fuel'" by simp
    from Suc.IH[OF this Suc.prems(2)] show ?thesis by (rule processNode_fuel_Suc)
  qed
qed

lemma layout_roots_fuel_le:
  "fuel \<le> fuel' \<Longrightarrow> layout_roots fuel h rs xPos s = Some s' \<Longrightarrow>
     layout_roots fuel' h rs xPos s = Some s'"
proof (induction rs arbitrary: xPos s)
  case Nil
  then show ?case by simp
next
  case (Cons r rs)
  from Cons.prems(2) obtain i s1 where p: "processNode fuel h r 0 xPos s = Some (i, s1)"
    and l: "layout_roots fuel h rs (maxWidth s1 + SIBLING_SPACING) s1 = Some s'"
    by (auto split: option.splits)
  from processNode_fuel_le[OF Cons.prems(1) p] Cons.IH[OF Cons.prems(1) l]
  show ?case by simp
qed

lemma layout_fuel_le:
  "fuel \<le> fuel' \<Longrightarrow> layoutFamilyTree fuel h rootPersons = Some L \<Longrightarrow>
     layoutFamilyTree fuel' h rootPersons = Some L"
  by (auto simp: layoutFamilyTree_def split: option.splits dest: layout_roots_fuel_le)

text \<open>
  C10. For every forest with finitely many person ids and every list of roots,
  \<open>layoutFamilyTree\<close> returns (a nesting depth of one more than the number of ids is
  enough, and every depth that suffices gives the same layout), and every node of the
  returned layout, spouse nodes and descendants included, has \<open>x \<ge> 0\<close>, \<open>y \<ge> 0\<close>,
  \<open>x + width \<le> dimensions.width\<close> and \<open>y + height \<le> dimensions.height\<close>.
\<close>

theorem layout_nodes_inside:
  assumes "finite (person_ids h)"
  shows "(\<exists>L. layoutFamilyTree (Suc (card (person_ids h))) h rootPersons = Some L)
       \<and> (\<forall>fuel L. layoutFamilyTree fuel h rootPersons = Some L \<longrightarrow>
             layoutFamilyTree (Suc (card (person_ids h))) h rootPersons = Some L
           \<and> list_all (inside (dimensions L)) (nodes L))"
proof -
  let ?N = "Suc (card (person_ids h))"
  from layout_total[OF assms, of ?N rootPersons]
  obtain L0 where L0: "layoutFamilyTree ?N h rootPersons = Some L0" by auto
  have "layoutFamilyTree ?N h rootPersons = Some L \<and> list_all (inside (dimensions L)) (nodes L)"
    if a: "layoutFamilyTree fuel h rootPersons = Some L" for fuel L
  proof -
    have "layoutFamilyTree ?N h rootPersons = Some L"
    proof (cases "fuel \<le> ?N")
      case True
      then show ?thesis using a by (rule layout_fuel_le)
    next
      case False
      then have "?N \<le> fuel" by simp
      from layout_fuel_le[OF this L0] a have "L0 = L" by simp
      with L0 show ?thesis by simp
    qed
    then show ?thesis using layout_inside[OF a] by simp
  qed
  with L0 show ?thesis by blast
qed

theorem layout_nodes_inside_witness:
  "finite (person_ids example_forest)
   \<and> layoutFamilyTree 3 example_forest [1, 5]
       = Some \<lparr>nodes =
           [\<lparr>n_x = 0, n_y = 0, n_person = 1, n_width = 256, n_height = 120,
              n_children = Some [2, 4], n_spouse = Some 1, n_level = 0\<rparr>,
            \<lparr>n_x = 288, n_y = 0, n_person = 3, n_width = 256, n_height = 120,
              n_children = None, n_spouse = None, n_level = 0\<rparr>,
            \<lparr>n_x = 0, n_y = 160, n_person = 2, n_width = 256, n_height = 120,
              n_children = Some [3], n_spouse = None, n_level = 1\<rparr>,
            \<lparr>n_x = 0, n_y = 320, n_person = 4, n_width = 256, n_height = 120,
              n_children = Some [], n_spouse = None, n_level = 2\<rparr>,
            \<lparr>n_x = 296, n_y = 160, n_person = 4, n_width = 256, n_height = 120,
              n_children = Some [], n_spouse = None, n_level = 1\<rparr>,
            \<lparr>n_x = 592, n_y = 0, n_person = 5, n_width = 256, n_height = 120,
              n_children = Some [], n_spouse = None, n_level = 0\<rparr>],
          connectors =
           [\<lparr>c_type = Horizontal, c_x1 = 256, c_y1 = 60, c_x2 = 288, c_y2 = 60\<rparr>,
            \<lparr>c_type = Vertical, c_x1 = 272, c_y1 = 120, c_x2 = 272, c_y2 = 200\<rparr>,
            \<lparr>c_type = Horizontal, c_x1 = 128, c_y1 = 200, c_x2 = 424, c_y2 = 200\<rparr>,
            \<lparr>c_type = Vertical, c_x1 = 128, c_y1 = 280, c_x2 = 128, c_y2 = 360\<rparr>,
            \<lparr>c_type = Vertical, c_x1 = 128, c_y1 = 360, c_x2 = 128, c_y2 = 320\<rparr>,
            \<lparr>c_type = Vertical, c_x1 = 128, c_y1 = 200, c_x2 = 128, c_y2 = 160\<rparr>,
            \<lparr>c_type = Vertical, c_x1 = 424, c_y1 = 200, c_x2 = 424, c_y2 = 160\<rparr>],
          dimensions = \<lparr>dim_width = 848, dim_height = 440\<rparr>\<rparr>
   \<and> (\<exists>L. layoutFamilyTree (Suc (card (person_ids example_forest))) example_forest [1, 5] = Some L
          \<and> dimensions L = \<lparr>dim_width = 848, dim_height = 440\<rparr>
          \<and> list_all (inside \<lparr>dim_width = 848, dim_height = 440\<rparr>) (nodes L))"
proof -
  have "p_id (example_forest k) \<in> {0, 1, 2, 3, 4}" for k
    by (simp add: example_forest_def example_object_def)
  then have "person_ids example_forest \<subseteq> {0, 1, 2, 3, 4}"
    unfolding person_ids_def by blast
  then have f: "finite (person_ids example_forest)" by (rule finite_subset) simp
  have e: "layoutFamilyTree 3 example_forest [1, 5]
       = Some \<lparr>nodes =
           [\<lparr>n_x = 0, n_y = 0, n_person = 1, n_width = 256, n_height = 120,
              n_children = Some [2, 4], n_spouse = Some 1, n_level = 0\<rparr>,
            \<lparr>n_x = 288, n_y = 0, n_person = 3, n_width = 256, n_height = 120,
              n_children = None, n_spouse = None, n_level = 0\<rparr>,
            \<lparr>n_x = 0, n_y = 160, n_person = 2, n_width = 256, n_height = 120,
              n_children = Some [3], n_spouse = None, n_level = 1\<rparr>,
            \<lparr>n_x = 0, n_y = 320, n_person = 4, n_width = 256, n_height = 120,
              n_children = Some [], n_spouse = None, n_level = 2\<rparr>,
            \<lparr>n_x = 296, n_y = 160, n_person = 4, n_width = 256, n_height = 120,
              n_children = Some [], n_spouse = None, n_level = 1\<rparr>,
            \<lparr>n_x = 592, n_y = 0, n_person = 5, n_width = 256, n_height = 120,
              n_children = Some [], n_spouse = None, n_level = 0\<rparr>],
          connectors =
           [\<lparr>c_type = Horizontal, c_x1 = 256, c_y1 = 60, c_x2 = 288, c_y2 = 60\<rparr>,
            \<lparr>c_type = Vertical, c_x1 = 272, c_y1 = 120, c_x2 = 272, c_y2 = 200\<rparr>,
            \<lparr>c_type = Horizontal, c_x1 = 128, c_y1 = 200, c_x2 = 424, c_y2 = 200\<rparr>,
            \<lparr>c_type = Vertical, c_x1 = 128, c_y1 = 280, c_x2 = 128, c_y2 = 360\<rparr>,
            \<lparr>c_type = Vertical, c_x1 = 128, c_y1 = 360, c_x2 = 128, c_y2 = 320\<rparr>,
            \<lparr>c_type = Vertical, c_x1 = 128, c_y1 = 200, c_x2 = 128, c_y2 = 160\<rparr>,
            \<lparr>c_type = Vertical, c_x1 = 424, c_y1 = 200, c_x2 = 424, c_y2 = 160\<rparr>],
          dimensions = \<lparr>dim_width = 848, dim_height = 440\<rparr>\<rparr>"
    by code_simp
  from layout_nodes_inside[OF f, of "[1, 5]", THEN conjunct2, rule_format, OF e]
  have "\<exists>L. layoutFamilyTree (Suc (card (person_ids example_forest))) example_forest [1, 5] = Some L
          \<and> dimensions L = \<lparr>dim_width = 848, dim_height = 440\<rparr>
          \<and> list_all (inside \<lparr>dim_width = 848, dim_height = 440\<rparr>) (nodes L)"
    by (intro exI conjI) (assumption | simp)+
  with f e show ?thesis by (intro conjI)
qed

end
